theory Spec2Isabelle
  imports Complex_Main
begin

section \<open>The hierarchical token bucket of src/index.ts\<close>

text \<open>
  The class \<^verbatim>\<open>HierarchicalTokenBucket\<close> is embedded over an explicit object store.
  An object reference is the index of the object in the store; objects are never freed, and
  the constructor appends, so a reference is the object's allocation order.

  JavaScript numbers that hold token counts, rates and waiting times are idealised as
  \<^typ>\<open>real\<close>: rounding, \<^verbatim>\<open>NaN\<close> and the infinities of IEEE doubles are outside this
  model. The readings of \<^verbatim>\<open>Date.now()\<close> are whole milliseconds, an \<^typ>\<open>int\<close>, and the
  count of takes is a \<^typ>\<open>nat\<close>. The options object a bucket is constructed with is stored
  by value: a caller that keeps the object is taken not to assign to its fields later.
\<close>

subsection \<open>Data\<close>

type_synonym ref = nat

text \<open>\<^verbatim>\<open>Pick<HierarchicalTokenBucketOptions, 'maximumCapacity' | 'refillRate'>\<close>, which is also
  \<^verbatim>\<open>Omit<HierarchicalTokenBucketOptions, 'parent'>\<close>.\<close>

record Limits =
  maximumCapacity :: real
  refillRate :: real

record HierarchicalTokenBucketOptions = Limits +
  parent :: "ref option"

record HierarchicalTokenBucket =
  options :: HierarchicalTokenBucketOptions
  lastTimestamp :: int
  capacity :: real
  firstTimestamp :: "int option"
  count :: nat

text \<open>The two \<^verbatim>\<open>throw new Error(...)\<close> of the constructor, with their messages.\<close>

datatype error = InvalidConfiguration string

text \<open>
  The trace is a ghost field: the source has none. It records, in order, each entry into
  \<^verbatim>\<open>take\<close> (line 152) and each execution of \<^verbatim>\<open>this.capacity -= 1\<close> (line 159), so that
  the order of these effects can be stated.
\<close>

datatype event = Called ref | Debited ref

text \<open>
  The world: the store, the clock and the trace. \<open>clock w n\<close> is what the \<open>n\<close>-th call of
  \<^verbatim>\<open>Date.now()\<close> returns, and \<open>reads w\<close> counts the calls made so far.
\<close>

record world =
  heap :: "HierarchicalTokenBucket list"
  clock :: "nat \<Rightarrow> int"
  reads :: nat
  trace :: "event list"

subsection \<open>Operations\<close>

definition Date_now :: "world \<Rightarrow> int \<times> world" where
  "Date_now w = (clock w (reads w), w\<lparr>reads := Suc (reads w)\<rparr>)"

definition update_bucket :: "ref \<Rightarrow> (HierarchicalTokenBucket \<Rightarrow> HierarchicalTokenBucket) \<Rightarrow> world \<Rightarrow> world" where
  "update_bucket this f w = w\<lparr>heap := (heap w)[this := f (heap w ! this)]\<rparr>"

definition emit :: "event \<Rightarrow> world \<Rightarrow> world" where
  "emit e w = w\<lparr>trace := trace w @ [e]\<rparr>"

text \<open>Lines 49-59. \<^verbatim>\<open>!(x >= 1)\<close> and \<^verbatim>\<open>!(x > 0)\<close> are kept in the source's form.\<close>

definition new_HierarchicalTokenBucket ::
  "HierarchicalTokenBucketOptions \<Rightarrow> world \<Rightarrow> error + (ref \<times> world)" where
  "new_HierarchicalTokenBucket opts w =
     (if \<not> (maximumCapacity opts \<ge> 1) then
        Inl (InvalidConfiguration ''HierarchicalTokenBucket.maximumCapacity must be >= 1'')
      else if \<not> (refillRate opts > 0) then
        Inl (InvalidConfiguration ''HierarchicalTokenBucket.refillRate must be > 0'')
      else
        (let (t, w1) = Date_now w;
             this = \<lparr>options = opts, lastTimestamp = t, capacity = maximumCapacity opts,
                     firstTimestamp = None, count = 0\<rparr>
         in Inr (length (heap w1), w1\<lparr>heap := heap w1 @ [this]\<rparr>)))"

text \<open>Lines 61-67: \<open>None\<close> is \<^verbatim>\<open>child()\<close>, \<open>Some ov\<close> is \<^verbatim>\<open>child(ov)\<close>.\<close>

definition child :: "ref \<Rightarrow> Limits option \<Rightarrow> world \<Rightarrow> error + (ref \<times> world)" where
  "child this ov w =
     new_HierarchicalTokenBucket
       \<lparr>maximumCapacity =
          (case ov of Some l \<Rightarrow> maximumCapacity l
           | None \<Rightarrow> maximumCapacity (options (heap w ! this))),
        refillRate =
          (case ov of Some l \<Rightarrow> refillRate l
           | None \<Rightarrow> refillRate (options (heap w ! this))),
        parent = Some this\<rparr> w"

text \<open>\<^verbatim>\<open>!x\<close> for \<^verbatim>\<open>x: number | undefined\<close>: true of \<^verbatim>\<open>undefined\<close> and of \<^verbatim>\<open>0\<close>.\<close>

definition js_not :: "int option \<Rightarrow> bool" where
  "js_not x = (case x of None \<Rightarrow> True | Some t \<Rightarrow> t = 0)"

text \<open>Lines 113-118.\<close>

definition addOneToMetrics :: "ref \<Rightarrow> world \<Rightarrow> world" where
  "addOneToMetrics this w =
     (let w2 =
            (if js_not (firstTimestamp (heap w ! this)) then
               (let (t, w1) = Date_now w
                in update_bucket this (\<lambda>b. b\<lparr>firstTimestamp := Some t\<rparr>) w1)
             else w)
      in update_bucket this (\<lambda>b. b\<lparr>count := count b + 1\<rparr>) w2)"

text \<open>Line 122.\<close>

definition elapsedTimeInSeconds :: "int \<Rightarrow> int \<Rightarrow> real" where
  "elapsedTimeInSeconds currentTimestamp previous = real_of_int (currentTimestamp - previous) / 1000"

text \<open>Lines 120-128.\<close>

definition refreshCapacity :: "ref \<Rightarrow> world \<Rightarrow> world" where
  "refreshCapacity this w =
     (let (currentTimestamp, w1) = Date_now w;
          elapsed = elapsedTimeInSeconds currentTimestamp (lastTimestamp (heap w1 ! this))
      in update_bucket this
           (\<lambda>b. b\<lparr>lastTimestamp := currentTimestamp,
                  capacity := min (capacity b + refillRate (options b) * elapsed)
                                  (maximumCapacity (options b))\<rparr>) w1)"

text \<open>\<^verbatim>\<open>x || 0\<close> for a number \<open>x\<close>: \<open>0\<close> when \<open>x\<close> is \<open>0\<close>, else \<open>x\<close>.\<close>

definition or_zero :: "real \<Rightarrow> real" where
  "or_zero x = (if x = 0 then 0 else x)"

text \<open>Line 159.\<close>

definition debit :: "ref \<Rightarrow> world \<Rightarrow> world" where
  "debit this w = emit (Debited this) (update_bucket this (\<lambda>b. b\<lparr>capacity := capacity b - 1\<rparr>) w)"

text \<open>
  Lines 152-162, the method \<^verbatim>\<open>take\<close> (renamed: \<open>take\<close> is a list function of HOL). The
  recursion follows the parent references; \<open>None\<close> is a call that does not return (a cycle
  of parents, which no sequence of constructor calls builds). With no parent,
  \<^verbatim>\<open>this.options.parent?.take() || 0\<close> is \<^verbatim>\<open>undefined || 0\<close>, that is \<open>0\<close>.
\<close>

partial_function (option) take_token :: "ref \<Rightarrow> world \<Rightarrow> (real \<times> world) option" where
  "take_token this w =
     (let w2 = refreshCapacity this (addOneToMetrics this (emit (Called this) w));
          minTimeToWait = 0;
          timeForThisToWait = (1 - capacity (heap w2 ! this)) / refillRate (options (heap w2 ! this))
      in case parent (options (heap w2 ! this)) of
           None \<Rightarrow>
             Some (max minTimeToWait (max timeForThisToWait (0::real)), debit this w2)
         | Some p \<Rightarrow>
             Option.bind (take_token p w2) (\<lambda>(r, w3).
               Some (max minTimeToWait (max timeForThisToWait (or_zero r)), debit this w3)))"

text \<open>
  Lines 97-111, the getter \<^verbatim>\<open>metadata\<close>: a read of the store that returns a snapshot and no
  new world. The snapshot's fields carry a prefix, the names without it being the bucket's.
\<close>

record HierarchicalTokenBucketMetrics =
  metrics_firstTimestamp :: "int option"
  metrics_lastTimestamp :: int
  metrics_count :: nat
  metrics_capacity :: real

datatype HierarchicalTokenBucketMetadata =
  Metadata (metadata_options: Limits) (metadata_metrics: HierarchicalTokenBucketMetrics)
    (metadata_parent: "HierarchicalTokenBucketMetadata option")

partial_function (option) metadata :: "ref \<Rightarrow> world \<Rightarrow> HierarchicalTokenBucketMetadata option" where
  "metadata this w =
     (let b = heap w ! this;
          opts = \<lparr>maximumCapacity = maximumCapacity (options b), refillRate = refillRate (options b)\<rparr>;
          ms = \<lparr>metrics_firstTimestamp = firstTimestamp b, metrics_lastTimestamp = lastTimestamp b,
                metrics_count = count b, metrics_capacity = capacity b\<rparr>
      in case parent (options b) of
           None \<Rightarrow> Some (Metadata opts ms None)
         | Some p \<Rightarrow> Option.bind (metadata p w) (\<lambda>m. Some (Metadata opts ms (Some m))))"

subsection \<open>Callers\<close>

text \<open>The empty store, before any bucket is constructed, with a given clock.\<close>

definition initial_world :: "(nat \<Rightarrow> int) \<Rightarrow> world" where
  "initial_world c = \<lparr>heap = [], clock = c, reads = 0, trace = []\<rparr>"

text \<open>\<open>n\<close> successive calls of \<^verbatim>\<open>take\<close> on one bucket, with the waits they return, in order.\<close>

fun take_times :: "nat \<Rightarrow> ref \<Rightarrow> world \<Rightarrow> (real list \<times> world) option" where
  "take_times 0 this w = Some ([], w)"
| "take_times (Suc n) this w =
     Option.bind (take_token this w) (\<lambda>(r, w1).
       Option.bind (take_times n this w1) (\<lambda>(rs, w2). Some (r # rs, w2)))"

text \<open>
  The helper of src/index.test.ts, lines 5-14: \<^verbatim>\<open>let i = 0; while (i < capacity) { bucket.take(); i++; }\<close>.
  The parameter \<^verbatim>\<open>capacity\<close> is named \<open>cap\<close>, the former being a field of the bucket.
\<close>

function depleteBucketByCapacity_loop :: "ref \<Rightarrow> real \<Rightarrow> nat \<Rightarrow> world \<Rightarrow> world option" where
  "depleteBucketByCapacity_loop bucket cap i w =
     (if real i < cap then
        (case take_token bucket w of
           None \<Rightarrow> None
         | Some (r, w') \<Rightarrow> depleteBucketByCapacity_loop bucket cap (Suc i) w')
      else Some w)"
  by pat_completeness auto
termination
proof (relation "measure (\<lambda>(bucket, cap, i, w). nat \<lceil>cap\<rceil> - i)")
  fix bucket :: ref and cap :: real and i :: nat and w w' :: world
  assume "real i < cap"
  then have "real i < of_int \<lceil>cap\<rceil>" by linarith
  then have "i < nat \<lceil>cap\<rceil>" by linarith
  then show "((bucket, cap, Suc i, w'), (bucket, cap, i, w))
               \<in> measure (\<lambda>(bucket, cap, i, w). nat \<lceil>cap\<rceil> - i)"
    by simp
qed simp

declare depleteBucketByCapacity_loop.simps [simp del]

definition depleteBucketByCapacity :: "ref \<Rightarrow> real \<Rightarrow> world \<Rightarrow> world option" where
  "depleteBucketByCapacity bucket cap w = depleteBucketByCapacity_loop bucket cap 0 w"

text \<open>
  \<^verbatim>\<open>jest.advanceTimersByTime(ms)\<close> under \<^verbatim>\<open>jest.useFakeTimers('modern')\<close>: every later reading
  of the clock is \<open>ms\<close> more than it would have been.
\<close>

definition advanceTimersByTime :: "int \<Rightarrow> world \<Rightarrow> world" where
  "advanceTimersByTime ms w = w\<lparr>clock := (\<lambda>n. if reads w \<le> n then clock w n + ms else clock w n)\<rparr>"

text \<open>
  The test \<^verbatim>\<open>should take one token from every parent\<close> (src/index.test.ts, lines 95-113),
  with the clock frozen at \<open>t\<close>: the value the test compares with 1.
\<close>

definition test_take_from_every_parent :: "int \<Rightarrow> real option" where
  "test_take_from_every_parent t =
     (case new_HierarchicalTokenBucket \<lparr>maximumCapacity = 10, refillRate = 1, parent = None\<rparr>
             (initial_world (\<lambda>_. t)) of
        Inl e \<Rightarrow> None
      | Inr (grandParentBucket, w1) \<Rightarrow>
     (case child grandParentBucket (Some \<lparr>maximumCapacity = 100, refillRate = 10\<rparr>) w1 of
        Inl e \<Rightarrow> None
      | Inr (parentBucket, w2) \<Rightarrow>
     (case child parentBucket (Some \<lparr>maximumCapacity = 1000, refillRate = 100\<rparr>) w2 of
        Inl e \<Rightarrow> None
      | Inr (bucket, w3) \<Rightarrow>
     (case depleteBucketByCapacity bucket 10 w3 of
        None \<Rightarrow> None
      | Some w4 \<Rightarrow> map_option fst (take_token bucket w4)))))"

text \<open>
  The test \<^verbatim>\<open>should return refillRate * elapsedTime if capacity was previously zero\<close>
  (src/index.test.ts, lines 56-72), with the clock frozen at \<open>t\<close> until it is advanced: the
  eleven values the test compares with ten times 0 and then 0.1.
\<close>

definition test_refill_after_one_second :: "int \<Rightarrow> real list option" where
  "test_refill_after_one_second t =
     (case new_HierarchicalTokenBucket \<lparr>maximumCapacity = 100, refillRate = 10, parent = None\<rparr>
             (initial_world (\<lambda>_. t)) of
        Inl e \<Rightarrow> None
      | Inr (bucket, w1) \<Rightarrow>
     (case depleteBucketByCapacity bucket 100 w1 of
        None \<Rightarrow> None
      | Some w2 \<Rightarrow> map_option fst (take_times 11 bucket (advanceTimersByTime 1000 w2))))"

text \<open>
  The store after the three constructor calls of that test (lines 96-109), the clock frozen
  at \<open>t\<close>: grandparent 0, parent 1, child 2, all full.
\<close>

definition three_levels :: "int \<Rightarrow> world" where
  "three_levels t =
     \<lparr>heap =
        [\<lparr>options = \<lparr>maximumCapacity = 10, refillRate = 1, parent = None\<rparr>,
          lastTimestamp = t, capacity = 10, firstTimestamp = None, count = 0\<rparr>,
         \<lparr>options = \<lparr>maximumCapacity = 100, refillRate = 10, parent = Some 0\<rparr>,
          lastTimestamp = t, capacity = 100, firstTimestamp = None, count = 0\<rparr>,
         \<lparr>options = \<lparr>maximumCapacity = 1000, refillRate = 100, parent = Some 1\<rparr>,
          lastTimestamp = t, capacity = 1000, firstTimestamp = None, count = 0\<rparr>],
      clock = (\<lambda>_. t), reads = 3, trace = []\<rparr>"

subsection \<open>Notions the statements use\<close>

text \<open>
  What the constructor guarantees of a bucket's options, and what allocation order
  guarantees of its parent: the parent was constructed first.
\<close>

definition valid_bucket :: "HierarchicalTokenBucket list \<Rightarrow> ref \<Rightarrow> bool" where
  "valid_bucket h i =
     (maximumCapacity (options (h ! i)) \<ge> 1 \<and> refillRate (options (h ! i)) > 0 \<and>
      (case parent (options (h ! i)) of None \<Rightarrow> True | Some p \<Rightarrow> p < i))"

definition wf_world :: "world \<Rightarrow> bool" where
  "wf_world w = list_all (valid_bucket (heap w)) [0..<length (heap w)]"

text \<open>The upper half of the capacity invariant, for every bucket of the store.\<close>

definition capacity_bounded :: "world \<Rightarrow> bool" where
  "capacity_bounded w = list_all (\<lambda>b. capacity b \<le> maximumCapacity (options b)) (heap w)"

text \<open>
  The bucket and its ancestors, the bucket first and the root last. The test \<open>p < this\<close>
  makes the recursion terminate on any store; on a well-formed store it always succeeds, and
  the list is closed under \<open>parent\<close>.
\<close>

function chain :: "HierarchicalTokenBucket list \<Rightarrow> ref \<Rightarrow> ref list" where
  "chain h this =
     this # (case parent (options (h ! this)) of
               None \<Rightarrow> []
             | Some p \<Rightarrow> if p < this then chain h p else [])"
  by pat_completeness auto
termination
  by (relation "measure snd") auto

declare chain.simps [simp del]

text \<open>The capacity of bucket \<open>b\<close> after a refill that reads the clock at \<open>t\<close> (lines 124-127).\<close>

definition refilled :: "HierarchicalTokenBucket \<Rightarrow> int \<Rightarrow> real" where
  "refilled b t =
     min (capacity b + refillRate (options b) * elapsedTimeInSeconds t (lastTimestamp b))
         (maximumCapacity (options b))"

text \<open>The deficit-closing time of bucket \<open>b\<close> after that refill (line 157).\<close>

definition deficit_time :: "HierarchicalTokenBucket \<Rightarrow> int \<Rightarrow> real" where
  "deficit_time b t = (1 - refilled b t) / refillRate (options b)"

text \<open>The first two statements of \<^verbatim>\<open>take\<close> (lines 153-154), after the entry is traced.\<close>

definition entered :: "ref \<Rightarrow> world \<Rightarrow> world" where
  "entered this w = refreshCapacity this (addOneToMetrics this (emit (Called this) w))"

text \<open>Which reading of the clock the refill inside \<^verbatim>\<open>take\<close> gets.\<close>

definition refresh_reading :: "ref \<Rightarrow> world \<Rightarrow> nat" where
  "refresh_reading this w =
     (if js_not (firstTimestamp (heap w ! this)) then Suc (reads w) else reads w)"

text \<open>No time elapses: every reading of the clock from now on is \<open>c\<close>.\<close>

definition still :: "int \<Rightarrow> world \<Rightarrow> bool" where
  "still c w = (\<forall>n\<ge>reads w. clock w n = c)"

text \<open>
  The buckets of the chain are at rest at \<open>c\<close>: each was last refilled at \<open>c\<close> and holds no
  more than its maximum.
\<close>

definition at_rest :: "int \<Rightarrow> HierarchicalTokenBucket list \<Rightarrow> ref \<Rightarrow> bool" where
  "at_rest c h this =
     list_all (\<lambda>j. lastTimestamp (h ! j) = c \<and> capacity (h ! j) \<le> maximumCapacity (options (h ! j)))
       (chain h this)"

text \<open>
  The largest deficit-closing time along the chain, or 0, once \<open>k\<close> more tokens are taken
  from every bucket of the chain and nothing is refilled.
\<close>

definition wait_after :: "HierarchicalTokenBucket list \<Rightarrow> ref \<Rightarrow> nat \<Rightarrow> real" where
  "wait_after h this k =
     Max (insert 0 ((\<lambda>j. (1 - (capacity (h ! j) - real k)) / refillRate (options (h ! j))) `
            set (chain h this)))"

text \<open>Event \<open>a\<close> occurs in the trace, and before any occurrence of event \<open>b\<close>.\<close>

fun precedes :: "event \<Rightarrow> event \<Rightarrow> event list \<Rightarrow> bool" where
  "precedes a b [] = False"
| "precedes a b (e # es) = (if e = b then False else if e = a then True else precedes a b es)"

text \<open>The events one call of \<^verbatim>\<open>take\<close> adds to the trace.\<close>

definition trace_of_take :: "ref \<Rightarrow> world \<Rightarrow> event list" where
  "trace_of_take this w =
     (case take_token this w of
        None \<Rightarrow> []
      | Some (r, w') \<Rightarrow> drop (length (trace w)) (trace w'))"

text \<open>The readings of the clock never go back.\<close>

definition mono_clock :: "world \<Rightarrow> bool" where
  "mono_clock w = (\<forall>m n. m \<le> n \<longrightarrow> clock w m \<le> clock w n)"

text \<open>No bucket was last refilled later than the next reading of the clock.\<close>

definition timestamps_behind :: "world \<Rightarrow> bool" where
  "timestamps_behind w = list_all (\<lambda>b. lastTimestamp b \<le> clock w (reads w)) (heap w)"

text \<open>
  A clock that is set back: it reads 1000 three times (the constructor and the two readings
  of a first \<^verbatim>\<open>take\<close>) and 0 from then on. \<open>set_back_world\<close> is the store after a bucket
  was constructed and taken from once under this clock.
\<close>

definition set_back_clock :: "nat \<Rightarrow> int" where
  "set_back_clock n = (if n < 3 then 1000 else 0)"

definition set_back_world :: world where
  "set_back_world =
     \<lparr>heap = [\<lparr>options = \<lparr>maximumCapacity = 10, refillRate = 1, parent = None\<rparr>,
               lastTimestamp = 1000, capacity = 9, firstTimestamp = Some 1000, count = 1\<rparr>],
      clock = set_back_clock, reads = 3, trace = [Called 0, Debited 0]\<rparr>"

text \<open>
  A clock at the epoch: it reads 0 three times (the constructor and the two readings of a
  first \<^verbatim>\<open>take\<close>) and 5 from then on. \<open>epoch_world\<close> is the store after a bucket was
  constructed under this clock.
\<close>

definition epoch_clock :: "nat \<Rightarrow> int" where
  "epoch_clock n = (if n < 3 then 0 else 5)"

definition epoch_world :: world where
  "epoch_world =
     \<lparr>heap = [\<lparr>options = \<lparr>maximumCapacity = 10, refillRate = 1, parent = None\<rparr>,
               lastTimestamp = 0, capacity = 10, firstTimestamp = None, count = 0\<rparr>],
      clock = epoch_clock, reads = 1, trace = []\<rparr>"

text \<open>
  The store after a bucket of maximum capacity 1 was constructed and taken from once, the
  clock frozen at 7: the bucket holds no token.
\<close>

definition drained_world :: world where
  "drained_world =
     \<lparr>heap = [\<lparr>options = \<lparr>maximumCapacity = 1, refillRate = 1, parent = None\<rparr>,
               lastTimestamp = 7, capacity = 0, firstTimestamp = Some 7, count = 1\<rparr>],
      clock = (\<lambda>_. 7), reads = 3, trace = [Called 0, Debited 0]\<rparr>"

text \<open>The value of \<^verbatim>\<open>firstTimestamp\<close> of bucket \<open>this\<close> after a call, if the call returns.\<close>

definition firstTimestamp_after :: "ref \<Rightarrow> (real \<times> world) option \<Rightarrow> int option option" where
  "firstTimestamp_after this res = map_option (\<lambda>(r, w). firstTimestamp (heap w ! this)) res"

section \<open>Properties\<close>

subsection \<open>The steps of a call\<close>

lemma wf_worldD: "wf_world w \<Longrightarrow> i < length (heap w) \<Longrightarrow> valid_bucket (heap w) i"
  by (simp add: wf_world_def list_all_iff)

lemma wf_worldI: "(\<And>i. i < length (heap w) \<Longrightarrow> valid_bucket (heap w) i) \<Longrightarrow> wf_world w"
  by (simp add: wf_world_def list_all_iff)

lemma refreshCapacity_eq:
  "refreshCapacity this w =
     w\<lparr>reads := Suc (reads w),
       heap := (heap w)[this := (heap w ! this)
          \<lparr>lastTimestamp := clock w (reads w),
           capacity := refilled (heap w ! this) (clock w (reads w))\<rparr>]\<rparr>"
  by (simp add: refreshCapacity_def Date_now_def update_bucket_def refilled_def)

lemma addOneToMetrics_eq:
  "addOneToMetrics this w =
     (if js_not (firstTimestamp (heap w ! this)) then
        w\<lparr>reads := Suc (reads w),
          heap := (heap w)[this := (heap w ! this)
             \<lparr>firstTimestamp := Some (clock w (reads w)), count := count (heap w ! this) + 1\<rparr>]\<rparr>
      else
        w\<lparr>heap := (heap w)[this := (heap w ! this)\<lparr>count := count (heap w ! this) + 1\<rparr>]\<rparr>)"
  by (cases "this < length (heap w)")
     (simp_all add: addOneToMetrics_def Date_now_def update_bucket_def not_less list_update_beyond)

lemma take_unfold:
  "take_token this w =
     (case parent (options (heap (entered this w) ! this)) of
        None \<Rightarrow> Some (max 0 (max ((1 - capacity (heap (entered this w) ! this)) /
                 refillRate (options (heap (entered this w) ! this))) 0), debit this (entered this w))
      | Some p \<Rightarrow> Option.bind (take_token p (entered this w)) (\<lambda>(r, w3).
           Some (max 0 (max ((1 - capacity (heap (entered this w) ! this)) /
                 refillRate (options (heap (entered this w) ! this))) (or_zero r)), debit this w3)))"
  unfolding entered_def by (subst take_token.simps) (simp add: Let_def)

lemma entered_frame [simp]:
  "length (heap (entered this w)) = length (heap w)"
  "clock (entered this w) = clock w"
  "reads (entered this w) = Suc (refresh_reading this w)"
  "trace (entered this w) = trace w @ [Called this]"
  "j \<noteq> this \<Longrightarrow> heap (entered this w) ! j = heap w ! j"
  by (simp_all add: entered_def refreshCapacity_eq addOneToMetrics_eq emit_def refresh_reading_def)

lemma entered_this [simp]:
  assumes "this < length (heap w)"
  shows "options (heap (entered this w) ! this) = options (heap w ! this)"
    and "capacity (heap (entered this w) ! this) =
           refilled (heap w ! this) (clock w (refresh_reading this w))"
    and "lastTimestamp (heap (entered this w) ! this) = clock w (refresh_reading this w)"
    and "count (heap (entered this w) ! this) = Suc (count (heap w ! this))"
    and "firstTimestamp (heap (entered this w) ! this) =
           (if js_not (firstTimestamp (heap w ! this)) then Some (clock w (reads w))
            else firstTimestamp (heap w ! this))"
  using assms
  by (simp_all add: entered_def refreshCapacity_eq addOneToMetrics_eq emit_def refresh_reading_def
        refilled_def)

lemma debit_frame [simp]:
  "length (heap (debit this w)) = length (heap w)"
  "clock (debit this w) = clock w"
  "reads (debit this w) = reads w"
  "trace (debit this w) = trace w @ [Debited this]"
  "j \<noteq> this \<Longrightarrow> heap (debit this w) ! j = heap w ! j"
  "this < length (heap w) \<Longrightarrow> heap (debit this w) ! this = (heap w ! this)\<lparr>capacity := capacity (heap w ! this) - 1\<rparr>"
  by (simp_all add: debit_def emit_def update_bucket_def)

lemma options_entered [simp]: "options (heap (entered this w) ! j) = options (heap w ! j)"
  by (cases "j = this"; cases "this < length (heap w)")
     (simp_all add: entered_def refreshCapacity_eq addOneToMetrics_eq emit_def not_less list_update_beyond)

lemma options_debit [simp]: "options (heap (debit this w) ! j) = options (heap w ! j)"
  by (cases "j = this"; cases "this < length (heap w)")
     (simp_all add: debit_def emit_def update_bucket_def not_less list_update_beyond)

lemma refilled_le: "refilled b t \<le> maximumCapacity (options b)"
  by (simp add: refilled_def)

lemma wf_entered: "wf_world w \<Longrightarrow> wf_world (entered this w)"
proof (rule wf_worldI)
  fix i assume wf: "wf_world w" and "i < length (heap (entered this w))"
  then have i: "i < length (heap w)" by simp
  from wf_worldD[OF wf i] show "valid_bucket (heap (entered this w)) i"
    using i by (cases "i = this") (simp_all add: valid_bucket_def)
qed

lemma wf_debit: "wf_world w \<Longrightarrow> wf_world (debit this w)"
proof (rule wf_worldI)
  fix i assume wf: "wf_world w" and "i < length (heap (debit this w))"
  then have i: "i < length (heap w)" by simp
  from wf_worldD[OF wf i] show "valid_bucket (heap (debit this w)) i"
    using i by (cases "i = this") (simp_all add: valid_bucket_def)
qed

lemma take_token_induct [consumes 2, case_names root nested]:
  assumes "wf_world w" and "this < length (heap w)"
  assumes root: "\<And>this w. wf_world w \<Longrightarrow> this < length (heap w) \<Longrightarrow>
      parent (options (heap w ! this)) = None \<Longrightarrow>
      P this w (max 0 (max ((1 - capacity (heap (entered this w) ! this)) /
                 refillRate (options (heap w ! this))) 0)) (debit this (entered this w))"
  assumes nested: "\<And>this w p r w3. wf_world w \<Longrightarrow> this < length (heap w) \<Longrightarrow>
      parent (options (heap w ! this)) = Some p \<Longrightarrow> p < this \<Longrightarrow>
      take_token p (entered this w) = Some (r, w3) \<Longrightarrow> P p (entered this w) r w3 \<Longrightarrow>
      P this w (max 0 (max ((1 - capacity (heap (entered this w) ! this)) /
                 refillRate (options (heap w ! this))) (or_zero r))) (debit this w3)"
  shows "\<exists>r w'. take_token this w = Some (r, w') \<and> P this w r w'"
  using assms(1,2)
proof (induction this arbitrary: w rule: less_induct)
  case (less this)
  note wf = \<open>wf_world w\<close> and lt = \<open>this < length (heap w)\<close>
  show ?case
  proof (cases "parent (options (heap w ! this))")
    case None
    then show ?thesis
      using root[OF wf lt None] by (subst take_unfold) simp
  next
    case (Some p)
    from wf_worldD[OF wf lt] Some have p: "p < this" by (simp add: valid_bucket_def)
    with lt have pl: "p < length (heap (entered this w))" by simp
    from less.IH[OF p wf_entered[OF wf] pl] obtain r w3
      where t: "take_token p (entered this w) = Some (r, w3)" and P: "P p (entered this w) r w3"
      by blast
    show ?thesis
      using nested[OF wf lt Some p t P] t Some by (subst take_unfold) simp
  qed
qed

subsection \<open>A call along the parent chain\<close>

lemma take_token_total:
  assumes "wf_world w" and "this < length (heap w)"
  shows "\<exists>r w'. take_token this w = Some (r, w')"
  using take_token_induct[OF assms, of "\<lambda>_ _ _ _. True"] by blast

lemma take_token_frame:
  assumes "wf_world w" and "this < length (heap w)" and "take_token this w = Some (r, w')"
  shows "length (heap w') = length (heap w) \<and> clock w' = clock w \<and> reads w < reads w' \<and>
         (\<forall>j. options (heap w' ! j) = options (heap w ! j)) \<and> wf_world w' \<and> 0 \<le> r"
proof -
  have "\<exists>r w'. take_token this w = Some (r, w') \<and>
      (length (heap w') = length (heap w) \<and> clock w' = clock w \<and> reads w < reads w' \<and>
         (\<forall>j. options (heap w' ! j) = options (heap w ! j)) \<and> wf_world w' \<and> 0 \<le> r)"
    using assms(1,2)
  proof (induction rule: take_token_induct)
    case (root this w)
    then show ?case by (simp add: wf_entered wf_debit refresh_reading_def)
  next
    case (nested this w p r w3)
    then show ?case by (auto simp add: wf_debit refresh_reading_def split: if_splits)
  qed
  with assms(3) show ?thesis by simp
qed

lemma chain_cong:
  "(\<And>j. options (h' ! j) = options (h ! j)) \<Longrightarrow> chain h' this = chain h this"
proof (induction h this rule: chain.induct)
  case (1 h this)
  show ?case
    using 1 by (subst (1 2) chain.simps) (auto split: option.splits)
qed

lemma chain_le: "j \<in> set (chain h this) \<Longrightarrow> j \<le> this"
proof (induction h this rule: chain.induct)
  case (1 h this)
  show ?case
  proof (cases "parent (options (h ! this))")
    case None
    with "1.prems" show ?thesis by (subst (asm) chain.simps) simp
  next
    case (Some p)
    show ?thesis
    proof (cases "p < this")
      case True
      with Some "1.prems" have "j = this \<or> j \<in> set (chain h p)"
        by (subst (asm) chain.simps) simp
      with "1.IH"[OF Some True] True show ?thesis by auto
    next
      case False
      with Some "1.prems" show ?thesis by (subst (asm) chain.simps) simp
    qed
  qed
qed

lemma chain_root: "parent (options (h ! this)) = None \<Longrightarrow> chain h this = [this]"
  by (subst chain.simps) simp

lemma chain_nested: "parent (options (h ! this)) = Some p \<Longrightarrow> p < this \<Longrightarrow> chain h this = this # chain h p"
  by (subst chain.simps) simp

lemma chain_entered [simp]: "chain (heap (entered i w)) this = chain (heap w) this"
  by (rule chain_cong) simp

lemma self_in_chain: "this \<in> set (chain h this)"
  by (subst chain.simps) simp

lemma chain_closed:
  assumes "wf_world w" and "this < length (heap w)" and "j \<in> set (chain (heap w) this)"
    and "parent (options (heap w ! j)) = Some p"
  shows "p \<in> set (chain (heap w) this)"
  using assms(2,3)
proof (induction this rule: less_induct)
  case (less this)
  show ?case
  proof (cases "j = this")
    case True
    with assms(4) have par: "parent (options (heap w ! this)) = Some p" by simp
    from wf_worldD[OF assms(1) less.prems(1)] par have "p < this" by (simp add: valid_bucket_def)
    from chain_nested[OF par this] self_in_chain[of p "heap w"] show ?thesis by simp
  next
    case False
    show ?thesis
    proof (cases "parent (options (heap w ! this))")
      case None
      with less.prems(2) False show ?thesis by (simp add: chain_root)
    next
      case (Some q)
      from wf_worldD[OF assms(1) less.prems(1)] Some have lt: "q < this"
        by (simp add: valid_bucket_def)
      from less.prems(2) False have jq: "j \<in> set (chain (heap w) q)"
        by (simp add: chain_nested[OF Some lt])
      from less.IH[OF lt _ jq] lt less.prems(1) have "p \<in> set (chain (heap w) q)" by simp
      then show ?thesis by (simp add: chain_nested[OF Some lt])
    qed
  qed
qed

lemma Max_insert0_image_Cons:
  "Max (insert (0::real) (f ` set (x # xs))) = max 0 (max (f x) (Max (insert 0 (f ` set xs))))"
proof -
  have "insert 0 (f ` set (x # xs)) = insert (f x) (insert 0 (f ` set xs))" by auto
  then have "Max (insert 0 (f ` set (x # xs))) = max (f x) (Max (insert 0 (f ` set xs)))"
    by (simp del: set_simps image_insert)
  moreover have "0 \<le> Max (insert 0 (f ` set xs))" by simp
  ultimately show ?thesis by linarith
qed

lemma take_token_chain:
  assumes "wf_world w" and "this < length (heap w)" and "take_token this w = Some (r, w')"
  shows "(\<forall>j. j \<notin> set (chain (heap w) this) \<longrightarrow> heap w' ! j = heap w ! j) \<and>
         (\<forall>j\<in>set (chain (heap w) this).
            capacity (heap w' ! j) = refilled (heap w ! j) (lastTimestamp (heap w' ! j)) - 1 \<and>
            count (heap w' ! j) = Suc (count (heap w ! j)) \<and>
            (\<exists>n\<ge>reads w. n < reads w' \<and> lastTimestamp (heap w' ! j) = clock w n)) \<and>
         r = Max (insert 0 ((\<lambda>j. deficit_time (heap w ! j) (lastTimestamp (heap w' ! j))) `
                    set (chain (heap w) this))) \<and>
         trace w' = trace w @ map Called (chain (heap w) this) @ map Debited (rev (chain (heap w) this))"
proof -
  have "\<exists>r w'. take_token this w = Some (r, w') \<and>
        ((\<forall>j. j \<notin> set (chain (heap w) this) \<longrightarrow> heap w' ! j = heap w ! j) \<and>
         (\<forall>j\<in>set (chain (heap w) this).
            capacity (heap w' ! j) = refilled (heap w ! j) (lastTimestamp (heap w' ! j)) - 1 \<and>
            count (heap w' ! j) = Suc (count (heap w ! j)) \<and>
            (\<exists>n\<ge>reads w. n < reads w' \<and> lastTimestamp (heap w' ! j) = clock w n)) \<and>
         r = Max (insert 0 ((\<lambda>j. deficit_time (heap w ! j) (lastTimestamp (heap w' ! j))) `
                    set (chain (heap w) this))) \<and>
         trace w' = trace w @ map Called (chain (heap w) this) @ map Debited (rev (chain (heap w) this)))"
    using assms(1,2)
  proof (induction rule: take_token_induct)
    case (root this w)
    have c: "chain (heap w) this = [this]" using root(3) by (rule chain_root)
    have n: "reads w \<le> refresh_reading this w" by (simp add: refresh_reading_def)
    show ?case
      unfolding c using root(2) n
      by (auto simp add: deficit_time_def max_def)
  next
    case (nested this w p r w3)
    let ?e = "entered this w"
    have c: "chain (heap w) this = this # chain (heap w) p"
      using nested(3,4) by (rule chain_nested)
    have notin: "this \<notin> set (chain (heap w) p)"
      using chain_le[of this "heap w" p] nested(4) by auto
    have pl: "p < length (heap ?e)" using nested(2,4) by simp
    note fr = take_token_frame[OF wf_entered[OF nested(1)] pl nested(5)]
    have IH1: "\<And>j. j \<notin> set (chain (heap w) p) \<Longrightarrow> heap w3 ! j = heap ?e ! j"
      and IH2: "\<And>j. j \<in> set (chain (heap w) p) \<Longrightarrow>
            capacity (heap w3 ! j) = refilled (heap ?e ! j) (lastTimestamp (heap w3 ! j)) - 1 \<and>
            count (heap w3 ! j) = Suc (count (heap ?e ! j)) \<and>
            (\<exists>n\<ge>reads ?e. n < reads w3 \<and> lastTimestamp (heap w3 ! j) = clock ?e n)"
      and IH3: "r = Max (insert 0 ((\<lambda>j. deficit_time (heap ?e ! j) (lastTimestamp (heap w3 ! j))) `
                    set (chain (heap w) p)))"
      and IH4: "trace w3 = trace ?e @ map Called (chain (heap w) p) @ map Debited (rev (chain (heap w) p))"
      using nested(6) by simp_all
    have this3: "heap w3 ! this = heap ?e ! this" using IH1 notin by blast
    have lt3: "this < length (heap w3)" using fr nested(2) by simp
    have n: "reads w \<le> refresh_reading this w" by (simp add: refresh_reading_def)
    have r0: "0 \<le> r" using fr by simp
    have A: "\<forall>j. j \<notin> set (chain (heap w) this) \<longrightarrow> heap (debit this w3) ! j = heap w ! j"
      unfolding c using IH1 by simp
    have B: "\<forall>j\<in>set (chain (heap w) this).
            capacity (heap (debit this w3) ! j) =
              refilled (heap w ! j) (lastTimestamp (heap (debit this w3) ! j)) - 1 \<and>
            count (heap (debit this w3) ! j) = Suc (count (heap w ! j)) \<and>
            (\<exists>n\<ge>reads w. n < reads (debit this w3) \<and>
               lastTimestamp (heap (debit this w3) ! j) = clock w n)"
    proof
      fix j assume j: "j \<in> set (chain (heap w) this)"
      show "capacity (heap (debit this w3) ! j) =
              refilled (heap w ! j) (lastTimestamp (heap (debit this w3) ! j)) - 1 \<and>
            count (heap (debit this w3) ! j) = Suc (count (heap w ! j)) \<and>
            (\<exists>n\<ge>reads w. n < reads (debit this w3) \<and>
               lastTimestamp (heap (debit this w3) ! j) = clock w n)"
      proof (cases "j = this")
        case True
        have "refresh_reading this w < reads w3" using fr by simp
        with n show ?thesis
          using True lt3 this3 nested(2) by auto
      next
        case False
        with j c have jp: "j \<in> set (chain (heap w) p)" by simp
        from IH2[OF jp] obtain m where m: "reads ?e \<le> m" "m < reads w3"
            "lastTimestamp (heap w3 ! j) = clock ?e m"
          and cap: "capacity (heap w3 ! j) = refilled (heap ?e ! j) (lastTimestamp (heap w3 ! j)) - 1"
          and cnt: "count (heap w3 ! j) = Suc (count (heap ?e ! j))"
          by blast
        have "reads w \<le> m" using m(1) n by simp
        with m cap cnt False show ?thesis by auto
      qed
    qed
    have eqf: "(\<lambda>j. deficit_time (heap ?e ! j) (lastTimestamp (heap w3 ! j))) ` set (chain (heap w) p)
             = (\<lambda>j. deficit_time (heap w ! j) (lastTimestamp (heap (debit this w3) ! j))) ` set (chain (heap w) p)"
    proof (intro image_cong refl)
      fix x assume "x \<in> set (chain (heap w) p)"
      with notin have "x \<noteq> this" by auto
      then show "deficit_time (heap ?e ! x) (lastTimestamp (heap w3 ! x)) =
            deficit_time (heap w ! x) (lastTimestamp (heap (debit this w3) ! x))"
        by simp
    qed
    have self: "(1 - capacity (heap ?e ! this)) / refillRate (options (heap w ! this)) =
          deficit_time (heap w ! this) (lastTimestamp (heap (debit this w3) ! this))"
      using nested(2) lt3 this3 by (simp add: deficit_time_def)
    have C: "max 0 (max ((1 - capacity (heap ?e ! this)) / refillRate (options (heap w ! this))) (or_zero r))
          = Max (insert 0 ((\<lambda>j. deficit_time (heap w ! j) (lastTimestamp (heap (debit this w3) ! j))) `
                    set (chain (heap w) this)))"
      unfolding c Max_insert0_image_Cons self IH3 eqf by (simp add: or_zero_def)
    have D: "trace (debit this w3) =
         trace w @ map Called (chain (heap w) this) @ map Debited (rev (chain (heap w) this))"
      unfolding c using IH4 by simp
    show ?case using A B C D by blast
  qed
  with assms(3) show ?thesis by simp
qed

subsection \<open>Successive calls while no time elapses\<close>

lemma take_times_total:
  assumes "wf_world w" and "this < length (heap w)"
  shows "\<exists>rs w'. take_times n this w = Some (rs, w')"
  using assms
proof (induction n arbitrary: w)
  case 0
  then show ?case by simp
next
  case (Suc n)
  from take_token_total[OF Suc.prems] obtain r w1 where t: "take_token this w = Some (r, w1)"
    by blast
  from take_token_frame[OF Suc.prems t] have "wf_world w1" "this < length (heap w1)"
    using Suc.prems by simp_all
  from Suc.IH[OF this] t show ?case by auto
qed

lemma take_times_frame:
  assumes "wf_world w" and "this < length (heap w)" and "take_times n this w = Some (rs, w')"
  shows "length (heap w') = length (heap w) \<and> clock w' = clock w \<and> reads w \<le> reads w' \<and>
         (\<forall>j. options (heap w' ! j) = options (heap w ! j)) \<and> wf_world w' \<and> length rs = n"
  using assms
proof (induction n arbitrary: w rs)
  case 0
  then show ?case by simp
next
  case (Suc n)
  from Suc.prems(3) obtain r w1 rs' where t: "take_token this w = Some (r, w1)"
    and ts: "take_times n this w1 = Some (rs', w')" and rs: "rs = r # rs'"
    by (auto split: bind_splits)
  note fr = take_token_frame[OF Suc.prems(1,2) t]
  from fr Suc.prems have "wf_world w1" "this < length (heap w1)" by simp_all
  from Suc.IH[OF this ts] fr rs show ?case by simp
qed

lemma refilled_at_rest:
  "lastTimestamp b = c \<Longrightarrow> capacity b \<le> maximumCapacity (options b) \<Longrightarrow> refilled b c = capacity b"
  by (simp add: refilled_def elapsedTimeInSeconds_def)

lemma still_mono: "still c w \<Longrightarrow> clock w' = clock w \<Longrightarrow> reads w \<le> reads w' \<Longrightarrow> still c w'"
  by (simp add: still_def)

lemma take_token_still:
  assumes "wf_world w" and "this < length (heap w)" and "still c w"
    and "take_token this w = Some (r, w')"
  shows "still c w' \<and>
         (\<forall>j\<in>set (chain (heap w) this).
            lastTimestamp (heap w' ! j) = c \<and>
            capacity (heap w' ! j) = refilled (heap w ! j) c - 1) \<and>
         r = Max (insert 0 ((\<lambda>j. deficit_time (heap w ! j) c) ` set (chain (heap w) this)))"
proof -
  note fr = take_token_frame[OF assms(1,2,4)]
  note ch = take_token_chain[OF assms(1,2,4)]
  have st: "still c w'" using assms(3) fr by (auto intro: still_mono)
  have last: "lastTimestamp (heap w' ! j) = c" if "j \<in> set (chain (heap w) this)" for j
  proof -
    from ch that obtain n where "reads w \<le> n" "lastTimestamp (heap w' ! j) = clock w n" by blast
    with assms(3) show ?thesis by (simp add: still_def)
  qed
  have cap: "capacity (heap w' ! j) = refilled (heap w ! j) c - 1"
    if "j \<in> set (chain (heap w) this)" for j
    using ch that last[OF that] by auto
  have "(\<lambda>j. deficit_time (heap w ! j) (lastTimestamp (heap w' ! j))) ` set (chain (heap w) this)
      = (\<lambda>j. deficit_time (heap w ! j) c) ` set (chain (heap w) this)"
    by (intro image_cong refl) (simp add: last)
  with ch have "r = Max (insert 0 ((\<lambda>j. deficit_time (heap w ! j) c) ` set (chain (heap w) this)))"
    by simp
  with st last cap show ?thesis by blast
qed

lemma at_restD:
  "at_rest c h this \<Longrightarrow> j \<in> set (chain h this) \<Longrightarrow>
     lastTimestamp (h ! j) = c \<and> capacity (h ! j) \<le> maximumCapacity (options (h ! j))"
  by (simp add: at_rest_def list_all_iff)

lemma take_token_at_rest:
  assumes "wf_world w" and "this < length (heap w)" and "still c w" and "at_rest c (heap w) this"
    and "take_token this w = Some (r, w')"
  shows "still c w' \<and> at_rest c (heap w') this \<and> chain (heap w') this = chain (heap w) this \<and>
         (\<forall>j\<in>set (chain (heap w) this). capacity (heap w' ! j) = capacity (heap w ! j) - 1) \<and>
         r = wait_after (heap w) this 0"
proof -
  note fr = take_token_frame[OF assms(1,2,5)]
  note st = take_token_still[OF assms(1,2,3,5)]
  have ch: "chain (heap w') this = chain (heap w) this"
    using fr by (intro chain_cong) simp
  have cap: "capacity (heap w' ! j) = capacity (heap w ! j) - 1"
    if "j \<in> set (chain (heap w) this)" for j
    using st that at_restD[OF assms(4) that] by (simp add: refilled_at_rest)
  have rest: "at_rest c (heap w') this"
    unfolding at_rest_def list_all_iff ch
  proof
    fix j assume j: "j \<in> set (chain (heap w) this)"
    from fr have "options (heap w' ! j) = options (heap w ! j)" by simp
    with st j cap[OF j] at_restD[OF assms(4) j]
    show "lastTimestamp (heap w' ! j) = c \<and> capacity (heap w' ! j) \<le> maximumCapacity (options (heap w' ! j))"
      by simp
  qed
  have "(\<lambda>j. deficit_time (heap w ! j) c) ` set (chain (heap w) this) =
        (\<lambda>j. (1 - (capacity (heap w ! j) - real 0)) / refillRate (options (heap w ! j))) `
            set (chain (heap w) this)"
    using at_restD[OF assms(4)]
    by (intro image_cong refl) (simp add: deficit_time_def refilled_at_rest)
  with st have "r = wait_after (heap w) this 0" by (simp add: wait_after_def)
  with st ch cap rest show ?thesis by blast
qed

lemma take_times_at_rest:
  assumes "wf_world w" and "this < length (heap w)" and "still c w" and "at_rest c (heap w) this"
    and "take_times n this w = Some (rs, w')"
  shows "rs = map (wait_after (heap w) this) [0..<n] \<and> still c w' \<and> at_rest c (heap w') this \<and>
         chain (heap w') this = chain (heap w) this \<and>
         (\<forall>j\<in>set (chain (heap w) this). capacity (heap w' ! j) = capacity (heap w ! j) - real n) \<and>
         (\<forall>k. wait_after (heap w') this k = wait_after (heap w) this (n + k))"
  using assms
proof (induction n arbitrary: w rs)
  case 0
  then show ?case by simp
next
  case (Suc n)
  from Suc.prems(5) obtain r w1 rs' where t: "take_token this w = Some (r, w1)"
    and ts: "take_times n this w1 = Some (rs', w')" and rs: "rs = r # rs'"
    by (auto split: bind_splits)
  note fr = take_token_frame[OF Suc.prems(1,2) t]
  note one = take_token_at_rest[OF Suc.prems(1-4) t]
  from fr Suc.prems have wf1: "wf_world w1" and lt1: "this < length (heap w1)" by simp_all
  from one have st1: "still c w1" and rest1: "at_rest c (heap w1) this"
    and ch1: "chain (heap w1) this = chain (heap w) this" by simp_all
  note IH = Suc.IH[OF wf1 lt1 st1 rest1 ts]
  have shift: "wait_after (heap w1) this k = wait_after (heap w) this (Suc k)" for k
  proof -
    have "(\<lambda>j. (1 - (capacity (heap w1 ! j) - real k)) / refillRate (options (heap w1 ! j))) `
            set (chain (heap w) this) =
          (\<lambda>j. (1 - (capacity (heap w ! j) - real (Suc k))) / refillRate (options (heap w ! j))) `
            set (chain (heap w) this)"
      using one fr by (intro image_cong refl) (simp add: algebra_simps)
    then show ?thesis by (simp add: wait_after_def ch1)
  qed
  have "rs = map (wait_after (heap w) this) [0..<Suc n]"
    using IH one rs by (simp add: map_upt_Suc shift del: upt_Suc)
  moreover have "\<forall>j\<in>set (chain (heap w) this). capacity (heap w' ! j) = capacity (heap w ! j) - real (Suc n)"
    using IH one by (simp add: ch1 algebra_simps)
  moreover have "\<forall>k. wait_after (heap w') this k = wait_after (heap w) this (Suc n + k)"
    using IH shift by simp
  ultimately show ?case using IH ch1 by simp
qed

lemma depleteBucketByCapacity_loop_take_times:
  "i \<le> n \<Longrightarrow>
     depleteBucketByCapacity_loop bucket (real n) i w = map_option snd (take_times (n - i) bucket w)"
proof (induction "n - i" arbitrary: i w)
  case 0
  then show ?case by (subst depleteBucketByCapacity_loop.simps) simp
next
  case (Suc k)
  then have lt: "i < n" and k: "k = n - Suc i" and n: "n - i = Suc (n - Suc i)"
    and le: "Suc i \<le> n" by simp_all
  show ?case
  proof (cases "take_token bucket w")
    case None
    with lt n show ?thesis by (subst depleteBucketByCapacity_loop.simps) simp
  next
    case (Some a)
    obtain r w1 where a: "a = (r, w1)" by (cases a)
    from Suc.hyps(1)[OF k le, of w1] Some a lt n show ?thesis
      by (subst depleteBucketByCapacity_loop.simps) (auto split: bind_splits)
  qed
qed

lemma depleteBucketByCapacity_take_times:
  "depleteBucketByCapacity bucket (real n) w = map_option snd (take_times n bucket w)"
  using depleteBucketByCapacity_loop_take_times[of 0 n bucket w]
  by (simp add: depleteBucketByCapacity_def)


subsection \<open>Construction\<close>

lemma new_HierarchicalTokenBucket_Inr:
  assumes "maximumCapacity opts \<ge> 1" and "refillRate opts > 0"
  shows "new_HierarchicalTokenBucket opts w =
           Inr (length (heap w),
                w\<lparr>reads := Suc (reads w),
                  heap := heap w @ [\<lparr>options = opts, lastTimestamp = clock w (reads w),
                     capacity = maximumCapacity opts, firstTimestamp = None, count = 0\<rparr>]\<rparr>)"
  using assms by (simp add: new_HierarchicalTokenBucket_def Date_now_def)

lemma new_HierarchicalTokenBucket_Inl:
  "(\<exists>msg. new_HierarchicalTokenBucket opts w = Inl (InvalidConfiguration msg)) \<longleftrightarrow>
     (maximumCapacity opts < 1 \<or> refillRate opts \<le> 0)"
  by (auto simp add: new_HierarchicalTokenBucket_def Date_now_def Let_def split: prod.splits)

text \<open>
  C2. Construction, and the derivation of a child with explicit overrides, fail with
  InvalidConfiguration exactly when \<open>maximumCapacity < 1\<close> or \<open>refillRate \<le> 0\<close>. For a
  valid pair the constructor returns a new bucket (the next free reference) whose capacity
  is its maximum capacity and whose count of takes is 0.
\<close>

theorem construction_validates:
  "((\<exists>msg. new_HierarchicalTokenBucket opts w = Inl (InvalidConfiguration msg)) \<longleftrightarrow>
      (maximumCapacity opts < 1 \<or> refillRate opts \<le> 0)) \<and>
   ((\<exists>msg. child this (Some ov) w = Inl (InvalidConfiguration msg)) \<longleftrightarrow>
      (maximumCapacity ov < 1 \<or> refillRate ov \<le> 0)) \<and>
   (maximumCapacity opts \<ge> 1 \<and> refillRate opts > 0 \<longrightarrow>
      (\<exists>w'. new_HierarchicalTokenBucket opts w = Inr (length (heap w), w') \<and>
            length (heap w') = Suc (length (heap w)) \<and>
            options (heap w' ! length (heap w)) = opts \<and>
            capacity (heap w' ! length (heap w)) = maximumCapacity opts \<and>
            count (heap w' ! length (heap w)) = 0 \<and>
            firstTimestamp (heap w' ! length (heap w)) = None \<and>
            lastTimestamp (heap w' ! length (heap w)) = clock w (reads w)))"
proof (intro conjI impI)
  show "(\<exists>msg. new_HierarchicalTokenBucket opts w = Inl (InvalidConfiguration msg)) \<longleftrightarrow>
      (maximumCapacity opts < 1 \<or> refillRate opts \<le> 0)"
    by (rule new_HierarchicalTokenBucket_Inl)
  show "(\<exists>msg. child this (Some ov) w = Inl (InvalidConfiguration msg)) \<longleftrightarrow>
      (maximumCapacity ov < 1 \<or> refillRate ov \<le> 0)"
    unfolding child_def new_HierarchicalTokenBucket_Inl by simp
next
  assume "maximumCapacity opts \<ge> 1 \<and> refillRate opts > 0"
  then show "\<exists>w'. new_HierarchicalTokenBucket opts w = Inr (length (heap w), w') \<and>
            length (heap w') = Suc (length (heap w)) \<and>
            options (heap w' ! length (heap w)) = opts \<and>
            capacity (heap w' ! length (heap w)) = maximumCapacity opts \<and>
            count (heap w' ! length (heap w)) = 0 \<and>
            firstTimestamp (heap w' ! length (heap w)) = None \<and>
            lastTimestamp (heap w' ! length (heap w)) = clock w (reads w)"
    by (simp add: new_HierarchicalTokenBucket_Inr)
qed

theorem construction_validates_witness:
  "(\<exists>w'. new_HierarchicalTokenBucket \<lparr>maximumCapacity = 10, refillRate = 1, parent = None\<rparr>
           (initial_world (\<lambda>_. 0)) = Inr (0, w') \<and>
         capacity (heap w' ! 0) = 10 \<and> count (heap w' ! 0) = 0) \<and>
   (\<exists>msg. new_HierarchicalTokenBucket \<lparr>maximumCapacity = 0.9, refillRate = 1, parent = None\<rparr>
           (initial_world (\<lambda>_. 0)) = Inl (InvalidConfiguration msg)) \<and>
   (\<exists>msg. child 0 (Some \<lparr>maximumCapacity = 1, refillRate = - 0.1\<rparr>)
           (initial_world (\<lambda>_. 0)) = Inl (InvalidConfiguration msg))"
proof -
  let ?w = "initial_world (\<lambda>_. 0)"
  have a: "\<exists>w'. new_HierarchicalTokenBucket \<lparr>maximumCapacity = 10, refillRate = 1, parent = None\<rparr>
           ?w = Inr (0, w') \<and> capacity (heap w' ! 0) = 10 \<and> count (heap w' ! 0) = 0"
    using construction_validates[of "\<lparr>maximumCapacity = 10, refillRate = 1, parent = None\<rparr>" ?w
            0 "\<lparr>maximumCapacity = 1, refillRate = - 0.1\<rparr>"]
    by (auto simp add: initial_world_def)
  have b: "\<exists>msg. new_HierarchicalTokenBucket \<lparr>maximumCapacity = 0.9, refillRate = 1, parent = None\<rparr>
           ?w = Inl (InvalidConfiguration msg)"
    using construction_validates[of "\<lparr>maximumCapacity = 0.9, refillRate = 1, parent = None\<rparr>" ?w
            0 "\<lparr>maximumCapacity = 1, refillRate = - 0.1\<rparr>"]
    by simp
  have c: "\<exists>msg. child 0 (Some \<lparr>maximumCapacity = 1, refillRate = - 0.1\<rparr>) ?w =
           Inl (InvalidConfiguration msg)"
    using construction_validates[of "\<lparr>maximumCapacity = 0.9, refillRate = 1, parent = None\<rparr>" ?w
            0 "\<lparr>maximumCapacity = 1, refillRate = - 0.1\<rparr>"]
    by simp
  from a b c show ?thesis by blast
qed

subsection \<open>The three-level example\<close>

lemma three_levels_constructed:
  "\<exists>w1 w2.
     new_HierarchicalTokenBucket \<lparr>maximumCapacity = 10, refillRate = 1, parent = None\<rparr>
       (initial_world (\<lambda>_. t)) = Inr (0, w1) \<and>
     child 0 (Some \<lparr>maximumCapacity = 100, refillRate = 10\<rparr>) w1 = Inr (1, w2) \<and>
     child 1 (Some \<lparr>maximumCapacity = 1000, refillRate = 100\<rparr>) w2 = Inr (2, three_levels t)"
  by (simp add: new_HierarchicalTokenBucket_Inr child_def initial_world_def three_levels_def)

lemma three_levels_facts:
  "wf_world (three_levels t)" "2 < length (heap (three_levels t))" "still t (three_levels t)"
  "chain (heap (three_levels t)) 2 = [2, 1, 0]" "at_rest t (heap (three_levels t)) 2"
  "reads (three_levels t) = 3" "clock (three_levels t) = (\<lambda>_. t)" "trace (three_levels t) = []"
proof -
  show c: "chain (heap (three_levels t)) 2 = [2, 1, 0]"
    by (simp add: chain.simps three_levels_def)
  show "at_rest t (heap (three_levels t)) 2"
    unfolding at_rest_def c by (simp add: three_levels_def)
qed (simp_all add: wf_world_def valid_bucket_def three_levels_def upt_rec still_def)

lemma three_levels_wait_after:
  "wait_after (heap (three_levels t)) 2 k = max 0 (real k - 9)"
proof -
  have "wait_after (heap (three_levels t)) 2 k =
        max 0 (max ((real k - 999) / 100) (max ((real k - 99) / 10) (real k - 9)))"
    unfolding wait_after_def three_levels_facts by (simp add: three_levels_def)
  then show ?thesis by (simp add: max_def field_simps)
qed

lemma test_take_from_every_parent_value: "test_take_from_every_parent t = Some 1"
proof -
  let ?w3 = "three_levels t"
  note [simp] = three_levels_facts
  have wf: "wf_world ?w3" and lt: "2 < length (heap ?w3)" and st: "still t ?w3"
    and rest: "at_rest t (heap ?w3) 2" by simp_all
  from take_times_total[OF wf lt, of 10] obtain rs w4 where ts: "take_times 10 2 ?w3 = Some (rs, w4)"
    by blast
  note fr = take_times_frame[OF wf lt ts]
  note run = take_times_at_rest[OF wf lt st rest ts]
  from fr lt have wf4: "wf_world w4" and lt4: "2 < length (heap w4)" by simp_all
  from take_token_total[OF wf4 lt4] obtain r w5 where t5: "take_token 2 w4 = Some (r, w5)" by blast
  from run have st4: "still t w4" and rest4: "at_rest t (heap w4) 2" by simp_all
  from take_token_at_rest[OF wf4 lt4 st4 rest4 t5] have "r = wait_after (heap w4) 2 0" by simp
  also have "\<dots> = wait_after (heap ?w3) 2 10" using run by simp
  also have "\<dots> = 1" by (simp add: three_levels_wait_after)
  finally have r: "r = 1" .
  have dep: "depleteBucketByCapacity 2 10 ?w3 = Some w4"
    using depleteBucketByCapacity_take_times[of 2 10 ?w3] ts by simp
  from three_levels_constructed[of t] obtain w1 w2 where
    n1: "new_HierarchicalTokenBucket \<lparr>maximumCapacity = 10, refillRate = 1, parent = None\<rparr>
             (initial_world (\<lambda>_. t)) = Inr (0, w1)"
    and n2: "child 0 (Some \<lparr>maximumCapacity = 100, refillRate = 10\<rparr>) w1 = Inr (1, w2)"
    and n3: "child 1 (Some \<lparr>maximumCapacity = 1000, refillRate = 100\<rparr>) w2 = Inr (2, ?w3)"
    by blast
  show ?thesis
    unfolding test_take_from_every_parent_def
    by (simp only: n1 n2 n3 dep t5 r sum.case prod.case option.case option.map fst_conv)
qed

text \<open>
  C1. A call of \<^verbatim>\<open>take\<close> on a bucket of a well-formed store returns. Every bucket of the
  parent chain is refilled at a reading of the clock taken during the call and then holds
  exactly one token less than after its refill; no other bucket changes. The value returned
  is the maximum of 0 and the deficit-closing times \<open>(1 - capacity) / refillRate\<close> of the
  chain's buckets, each computed after that bucket's refill. In the three-level test, ten
  takes on the child and one more return 1.
\<close>

theorem take_debits_chain_returns_max:
  "(wf_world w \<and> this < length (heap w) \<longrightarrow>
     (\<exists>r w'. take_token this w = Some (r, w') \<and>
        (\<forall>j\<in>set (chain (heap w) this).
           (\<exists>n\<ge>reads w. n < reads w' \<and> lastTimestamp (heap w' ! j) = clock w n) \<and>
           capacity (heap w' ! j) = refilled (heap w ! j) (lastTimestamp (heap w' ! j)) - 1) \<and>
        (\<forall>j. j \<notin> set (chain (heap w) this) \<longrightarrow> heap w' ! j = heap w ! j) \<and>
        r = Max (insert 0 ((\<lambda>j. deficit_time (heap w ! j) (lastTimestamp (heap w' ! j))) `
                   set (chain (heap w) this))))) \<and>
   (\<forall>t. test_take_from_every_parent t = Some 1)"
proof (intro conjI impI allI)
  assume a: "wf_world w \<and> this < length (heap w)"
  then obtain r w' where t: "take_token this w = Some (r, w')"
    using take_token_total by blast
  from a have wf: "wf_world w" and lt: "this < length (heap w)" by simp_all
  from take_token_chain[OF wf lt t] t
  show "\<exists>r w'. take_token this w = Some (r, w') \<and>
        (\<forall>j\<in>set (chain (heap w) this).
           (\<exists>n\<ge>reads w. n < reads w' \<and> lastTimestamp (heap w' ! j) = clock w n) \<and>
           capacity (heap w' ! j) = refilled (heap w ! j) (lastTimestamp (heap w' ! j)) - 1) \<and>
        (\<forall>j. j \<notin> set (chain (heap w) this) \<longrightarrow> heap w' ! j = heap w ! j) \<and>
        r = Max (insert 0 ((\<lambda>j. deficit_time (heap w ! j) (lastTimestamp (heap w' ! j))) `
                   set (chain (heap w) this)))"
    by blast
next
  fix t show "test_take_from_every_parent t = Some 1"
    by (rule test_take_from_every_parent_value)
qed

theorem take_debits_chain_returns_max_witness:
  "\<exists>r w'. take_token 2 (three_levels 0) = Some (r, w') \<and> r = 0 \<and>
     capacity (heap w' ! 2) = 999 \<and> capacity (heap w' ! 1) = 99 \<and> capacity (heap w' ! 0) = 9"
proof -
  let ?w = "three_levels 0"
  have pre: "wf_world ?w \<and> 2 < length (heap ?w)" by (simp add: three_levels_facts)
  from take_debits_chain_returns_max[of ?w 2] pre obtain r w'
    where t: "take_token 2 ?w = Some (r, w')"
      and m: "\<And>j. j \<in> {2, 1, 0} \<Longrightarrow>
           (\<exists>n\<ge>reads ?w. n < reads w' \<and> lastTimestamp (heap w' ! j) = clock ?w n) \<and>
           capacity (heap w' ! j) = refilled (heap ?w ! j) (lastTimestamp (heap w' ! j)) - 1"
      and r: "r = Max (insert 0 ((\<lambda>j. deficit_time (heap ?w ! j) (lastTimestamp (heap w' ! j))) `
                   set (chain (heap ?w) 2)))"
    by (auto simp add: three_levels_facts)
  have l: "lastTimestamp (heap w' ! j) = 0" if "j \<in> {2, 1, 0}" for j
    using m[OF that] by (auto simp add: three_levels_facts)
  have c: "capacity (heap w' ! j) = refilled (heap ?w ! j) 0 - 1" if "j \<in> {2, 1, 0}" for j
    using m[OF that] l[OF that] by simp
  have "r = 0"
    unfolding r three_levels_facts
    by (simp add: l deficit_time_def refilled_def elapsedTimeInSeconds_def three_levels_def)
  moreover have "capacity (heap w' ! 2) = 999" "capacity (heap w' ! 1) = 99" "capacity (heap w' ! 0) = 9"
    using c[of 2] c[of 1] c[of 0]
    by (simp_all add: refilled_def elapsedTimeInSeconds_def three_levels_def)
  ultimately show ?thesis using t by blast
qed

subsection \<open>Successive waits\<close>

lemma Max_insert0_image_mono:
  assumes "\<And>j. j \<in> set xs \<Longrightarrow> f j \<le> g j"
  shows "Max (insert (0::real) (f ` set xs)) \<le> Max (insert 0 (g ` set xs))"
proof -
  have "\<And>a. a \<in> insert 0 (f ` set xs) \<Longrightarrow> \<exists>b\<in>insert 0 (g ` set xs). a \<le> b"
    using assms by auto
  then show ?thesis
    by (subst Max_le_iff) (auto simp add: Max_ge_iff simp del: Max_insert)
qed

lemma chain_valid:
  assumes "wf_world w" and "this < length (heap w)" and "j \<in> set (chain (heap w) this)"
  shows "valid_bucket (heap w) j"
  using chain_le[OF assms(3)] assms(1,2) by (intro wf_worldD) simp_all

lemma wait_after_mono:
  assumes "wf_world w" and "this < length (heap w)" and "k \<le> k'"
  shows "wait_after (heap w) this k \<le> wait_after (heap w) this k'"
  unfolding wait_after_def
proof (rule Max_insert0_image_mono)
  fix j assume "j \<in> set (chain (heap w) this)"
  from chain_valid[OF assms(1,2) this] have "0 < refillRate (options (heap w ! j))"
    by (simp add: valid_bucket_def)
  with assms(3) show "(1 - (capacity (heap w ! j) - real k)) / refillRate (options (heap w ! j))
        \<le> (1 - (capacity (heap w ! j) - real k')) / refillRate (options (heap w ! j))"
    by (simp add: divide_le_cancel)
qed

lemma take_token_comes_to_rest:
  assumes "wf_world w" and "this < length (heap w)" and "still c w"
    and "take_token this w = Some (r, w')"
  shows "at_rest c (heap w') this \<and> chain (heap w') this = chain (heap w) this \<and>
         r \<le> wait_after (heap w') this k"
proof -
  note fr = take_token_frame[OF assms(1,2,4)]
  note st = take_token_still[OF assms(1,2,3,4)]
  have ch: "chain (heap w') this = chain (heap w) this"
    using fr by (intro chain_cong) simp
  have rest: "at_rest c (heap w') this"
    unfolding at_rest_def list_all_iff ch
  proof
    fix j assume j: "j \<in> set (chain (heap w) this)"
    from fr have "options (heap w' ! j) = options (heap w ! j)" by simp
    moreover have "refilled (heap w ! j) c \<le> maximumCapacity (options (heap w ! j))"
      by (rule refilled_le)
    ultimately show "lastTimestamp (heap w' ! j) = c \<and>
        capacity (heap w' ! j) \<le> maximumCapacity (options (heap w' ! j))"
      using st j by simp
  qed
  have "r = Max (insert 0 ((\<lambda>j. deficit_time (heap w ! j) c) ` set (chain (heap w) this)))"
    using st by simp
  also have "\<dots> \<le> wait_after (heap w') this k"
    unfolding wait_after_def ch
  proof (rule Max_insert0_image_mono)
    fix j assume j: "j \<in> set (chain (heap w) this)"
    from chain_valid[OF assms(1,2) j] have pos: "0 < refillRate (options (heap w ! j))"
      by (simp add: valid_bucket_def)
    from fr have o: "options (heap w' ! j) = options (heap w ! j)" by simp
    from st j have cap: "capacity (heap w' ! j) = refilled (heap w ! j) c - 1" by simp
    show "deficit_time (heap w ! j) c
        \<le> (1 - (capacity (heap w' ! j) - real k)) / refillRate (options (heap w' ! j))"
      unfolding o cap deficit_time_def using pos by (simp add: divide_le_cancel)
  qed
  finally show ?thesis using rest ch by simp
qed

lemma take_times_sorted:
  assumes "wf_world w" and "this < length (heap w)" and "still c w"
    and "take_times n this w = Some (rs, w')"
  shows "sorted rs"
proof (cases n)
  case 0
  with assms(4) show ?thesis by simp
next
  case (Suc m)
  with assms(4) obtain r w1 rs' where t: "take_token this w = Some (r, w1)"
    and ts: "take_times m this w1 = Some (rs', w')" and rs: "rs = r # rs'"
    by (auto split: bind_splits)
  note fr = take_token_frame[OF assms(1,2) t]
  from fr assms have wf1: "wf_world w1" and lt1: "this < length (heap w1)" by simp_all
  have st1: "still c w1" using take_token_still[OF assms(1-3) t] by simp
  note rest = take_token_comes_to_rest[OF assms(1-3) t]
  from rest have rest1: "at_rest c (heap w1) this" by simp
  from take_times_at_rest[OF wf1 lt1 st1 rest1 ts]
  have rs': "rs' = map (wait_after (heap w1) this) [0..<m]" by simp
  have "sorted rs'"
    unfolding rs' by (auto simp add: sorted_iff_nth_mono intro: wait_after_mono[OF wf1 lt1])
  moreover have "\<forall>x\<in>set rs'. r \<le> x"
    unfolding rs' using rest by auto
  ultimately show ?thesis by (simp add: rs)
qed

text \<open>
  C10. On a well-formed store, when every reading of the clock from the first call on is
  the same, any number of successive calls of \<^verbatim>\<open>take\<close> on one bucket return, and the waits
  they return are in non-decreasing order; after \<open>n > 0\<close> calls every bucket of the chain
  holds \<open>n\<close> tokens less than its first refill left it.
\<close>

theorem waits_nondecreasing:
  "wf_world w \<and> this < length (heap w) \<and> still c w \<longrightarrow>
     (\<exists>rs w'. take_times n this w = Some (rs, w') \<and> length rs = n \<and> sorted rs \<and>
        (\<forall>j\<in>set (chain (heap w) this).
           capacity (heap w' ! j) =
             (if n = 0 then capacity (heap w ! j) else refilled (heap w ! j) c - real n)))"
proof
  assume a: "wf_world w \<and> this < length (heap w) \<and> still c w"
  then have wf: "wf_world w" and lt: "this < length (heap w)" and st: "still c w" by simp_all
  from take_times_total[OF wf lt] obtain rs w' where ts: "take_times n this w = Some (rs, w')"
    by blast
  have len: "length rs = n" using take_times_frame[OF wf lt ts] by simp
  have srt: "sorted rs" by (rule take_times_sorted[OF wf lt st ts])
  have cap: "\<forall>j\<in>set (chain (heap w) this).
           capacity (heap w' ! j) =
             (if n = 0 then capacity (heap w ! j) else refilled (heap w ! j) c - real n)"
  proof (cases n)
    case 0
    with ts show ?thesis by simp
  next
    case (Suc m)
    with ts obtain r w1 rs' where t: "take_token this w = Some (r, w1)"
      and ts': "take_times m this w1 = Some (rs', w')"
      by (auto split: bind_splits)
    note fr = take_token_frame[OF wf lt t]
    from fr lt have wf1: "wf_world w1" and lt1: "this < length (heap w1)" by simp_all
    note one = take_token_still[OF wf lt st t]
    note rest = take_token_comes_to_rest[OF wf lt st t, of 0]
    from one rest have st1: "still c w1" and rest1: "at_rest c (heap w1) this"
      and ch: "chain (heap w1) this = chain (heap w) this" by simp_all
    from take_times_at_rest[OF wf1 lt1 st1 rest1 ts'] one
    show ?thesis by (simp add: Suc ch algebra_simps)
  qed
  from ts len srt cap
  show "\<exists>rs w'. take_times n this w = Some (rs, w') \<and> length rs = n \<and> sorted rs \<and>
        (\<forall>j\<in>set (chain (heap w) this).
           capacity (heap w' ! j) =
             (if n = 0 then capacity (heap w ! j) else refilled (heap w ! j) c - real n))"
    by blast
qed

theorem waits_nondecreasing_witness:
  "\<exists>rs w'. take_times 12 2 (three_levels 0) = Some (rs, w') \<and>
     rs = [0, 0, 0, 0, 0, 0, 0, 0, 0, 0, 1, 2] \<and> sorted rs \<and> capacity (heap w' ! 0) = - 2"
proof -
  let ?w = "three_levels 0"
  note f = three_levels_facts[of 0]
  from waits_nondecreasing[of ?w 2 0 12] f obtain rs w'
    where ts: "take_times 12 2 ?w = Some (rs, w')" and s: "sorted rs"
      and c: "\<forall>j\<in>set (chain (heap ?w) 2). capacity (heap w' ! j) = refilled (heap ?w ! j) 0 - 12"
    by auto
  from take_times_at_rest[OF f(1,2,3,5) ts]
  have "rs = map (\<lambda>k. max 0 (real k - 9)) [0..<12]"
    by (simp add: three_levels_wait_after)
  then have "rs = [0, 0, 0, 0, 0, 0, 0, 0, 0, 0, 1, 2]"
    by (simp add: upt_rec)
  moreover have "capacity (heap w' ! 0) = refilled (heap ?w ! 0) 0 - 12"
    using c unfolding f(4) by simp
  then have "capacity (heap w' ! 0) = - 2"
    by (simp add: refilled_def elapsedTimeInSeconds_def three_levels_def)
  ultimately show ?thesis using ts s by blast
qed

subsection \<open>A fresh root bucket\<close>

lemma new_HierarchicalTokenBucket_InrD:
  assumes "new_HierarchicalTokenBucket opts w = Inr (this, w')"
  shows "maximumCapacity opts \<ge> 1" and "refillRate opts > 0" and "this = length (heap w)"
    and "w' = w\<lparr>reads := Suc (reads w),
                 heap := heap w @ [\<lparr>options = opts, lastTimestamp = clock w (reads w),
                    capacity = maximumCapacity opts, firstTimestamp = None, count = 0\<rparr>]\<rparr>"
  using assms
  by (auto simp add: new_HierarchicalTokenBucket_def Date_now_def split: if_splits)

lemma new_HierarchicalTokenBucket_fields:
  assumes "new_HierarchicalTokenBucket opts w = Inr (this, w')"
  shows "length (heap w') = Suc (length (heap w))" and "clock w' = clock w"
    and "reads w' = Suc (reads w)" and "trace w' = trace w"
    and "\<And>j. j < length (heap w) \<Longrightarrow> heap w' ! j = heap w ! j"
    and "heap w' ! this = \<lparr>options = opts, lastTimestamp = clock w (reads w),
           capacity = maximumCapacity opts, firstTimestamp = None, count = 0\<rparr>"
  using new_HierarchicalTokenBucket_InrD[OF assms] by (simp_all add: nth_append)

lemma wf_new:
  assumes "wf_world w" and "new_HierarchicalTokenBucket opts w = Inr (this, w')"
    and "case parent opts of None \<Rightarrow> True | Some p \<Rightarrow> p < length (heap w)"
  shows "wf_world w'"
proof (rule wf_worldI)
  note d = new_HierarchicalTokenBucket_InrD[OF assms(2)]
  note f = new_HierarchicalTokenBucket_fields[OF assms(2)]
  fix i assume "i < length (heap w')"
  then consider "i < length (heap w)" | "i = this" using f(1) d(3) by linarith
  then show "valid_bucket (heap w') i"
  proof cases
    case 1
    with wf_worldD[OF assms(1) 1] f(5)[OF 1] show ?thesis by (simp add: valid_bucket_def)
  next
    case 2
    with f(6) d(1,2,3) assms(3) show ?thesis by (simp add: valid_bucket_def)
  qed
qed

lemma new_root_at_rest:
  assumes "new_HierarchicalTokenBucket opts w = Inr (this, w')" and "parent opts = None"
    and "still c w"
  shows "still c w'" and "chain (heap w') this = [this]" and "at_rest c (heap w') this"
    and "wait_after (heap w') this k =
           max 0 ((1 - (maximumCapacity opts - real k)) / refillRate opts)"
proof -
  note f = new_HierarchicalTokenBucket_fields[OF assms(1)]
  show "still c w'" using assms(3) f by (simp add: still_def)
  show ch: "chain (heap w') this = [this]" using f(6) assms(2) by (intro chain_root) simp
  have "clock w (reads w) = c" using assms(3) by (simp add: still_def)
  then show "at_rest c (heap w') this" unfolding at_rest_def ch using f(6) by simp
  show "wait_after (heap w') this k =
           max 0 ((1 - (maximumCapacity opts - real k)) / refillRate opts)"
    unfolding wait_after_def ch using f(6) by simp
qed

text \<open>
  C6. For a root bucket freshly constructed with \<open>maximumCapacity \<ge> 1\<close> on a well-formed
  store, while every reading of the clock is the same: the first \<open>\<lfloor>maximumCapacity\<rfloor>\<close>
  calls of \<^verbatim>\<open>take\<close> return 0 and the next call returns a wait greater than 0; the very
  first call returns 0 and leaves the capacity one below the maximum.
\<close>

theorem fresh_root_grants_floor_of_maximum:
  "maximumCapacity opts \<ge> 1 \<and> refillRate opts > 0 \<and> parent opts = None \<and>
   wf_world w \<and> still c w \<longrightarrow>
     (\<exists>this w0 rs w' w1.
        new_HierarchicalTokenBucket opts w = Inr (this, w0) \<and>
        take_times (Suc (nat \<lfloor>maximumCapacity opts\<rfloor>)) this w0 = Some (rs, w') \<and>
        take (nat \<lfloor>maximumCapacity opts\<rfloor>) rs = replicate (nat \<lfloor>maximumCapacity opts\<rfloor>) 0 \<and>
        0 < rs ! nat \<lfloor>maximumCapacity opts\<rfloor> \<and>
        take_token this w0 = Some (0, w1) \<and>
        capacity (heap w1 ! this) = maximumCapacity opts - 1)"
proof
  let ?M = "maximumCapacity opts" and ?R = "refillRate opts"
  let ?n = "nat \<lfloor>?M\<rfloor>"
  assume a: "?M \<ge> 1 \<and> ?R > 0 \<and> parent opts = None \<and> wf_world w \<and> still c w"
  then have M: "?M \<ge> 1" and R: "?R > 0" and root: "parent opts = None" and wf: "wf_world w"
    and st: "still c w" by simp_all
  let ?b = "length (heap w)"
  from new_HierarchicalTokenBucket_Inr[OF M R, of w] obtain w0
    where new: "new_HierarchicalTokenBucket opts w = Inr (?b, w0)" by blast
  note f = new_HierarchicalTokenBucket_fields[OF new]
  have wf0: "wf_world w0" using wf_new[OF wf new] root by simp
  have lt0: "?b < length (heap w0)" using f(1) by simp
  note r = new_root_at_rest[OF new root st]
  from take_times_total[OF wf0 lt0] obtain rs w'
    where ts: "take_times (Suc ?n) ?b w0 = Some (rs, w')" by blast
  from take_times_at_rest[OF wf0 lt0 r(1,3) ts]
  have rs: "rs = map (\<lambda>k. max 0 ((1 - (?M - real k)) / ?R)) [0..<Suc ?n]"
    by (simp add: r(4))
  have n: "real ?n \<le> ?M" and n': "?M < real ?n + 1" using M by linarith+
  have zero: "max 0 ((1 - (?M - real k)) / ?R) = 0" if "k < ?n" for k
  proof -
    from that n have "1 - (?M - real k) \<le> 0" by linarith
    with R have "(1 - (?M - real k)) / ?R \<le> 0" by (simp add: divide_le_0_iff)
    then show ?thesis by simp
  qed
  have "take ?n rs = map (\<lambda>k. max 0 ((1 - (?M - real k)) / ?R)) [0..<?n]"
    unfolding rs by (simp add: take_map del: upt_Suc)
  also have "\<dots> = replicate ?n 0"
    by (rule nth_equalityI) (simp_all add: zero)
  finally have first: "take ?n rs = replicate ?n 0" .
  have "rs ! ?n = max 0 ((1 - (?M - real ?n)) / ?R)"
    unfolding rs by (simp add: nth_append del: upt_Suc)
  moreover have "0 < (1 - (?M - real ?n)) / ?R" using n' R by simp
  ultimately have last: "0 < rs ! ?n" by simp
  from take_token_total[OF wf0 lt0] obtain r1 w1 where t: "take_token ?b w0 = Some (r1, w1)"
    by blast
  have "0 < ?n" using M by linarith
  from take_token_at_rest[OF wf0 lt0 r(1,3) t] zero[OF this]
  have "r1 = 0" and "capacity (heap w1 ! ?b) = ?M - 1"
    using f(6) by (simp_all add: r)
  with new ts first last t
  show "\<exists>this w0 rs w' w1.
        new_HierarchicalTokenBucket opts w = Inr (this, w0) \<and>
        take_times (Suc ?n) this w0 = Some (rs, w') \<and>
        take ?n rs = replicate ?n 0 \<and>
        0 < rs ! ?n \<and>
        take_token this w0 = Some (0, w1) \<and>
        capacity (heap w1 ! this) = ?M - 1"
    by blast
qed

theorem fresh_root_grants_floor_of_maximum_witness:
  "\<exists>this w0 rs w' w1.
     new_HierarchicalTokenBucket \<lparr>maximumCapacity = 5 / 2, refillRate = 1, parent = None\<rparr>
       (initial_world (\<lambda>_. 0)) = Inr (this, w0) \<and>
     take_times 3 this w0 = Some (rs, w') \<and> take 2 rs = [0, 0] \<and> 0 < rs ! 2 \<and>
     take_token this w0 = Some (0, w1) \<and> capacity (heap w1 ! this) = 3 / 2"
proof -
  have "wf_world (initial_world (\<lambda>_. 0))" "still 0 (initial_world (\<lambda>_. 0))"
    by (simp_all add: wf_world_def still_def initial_world_def)
  with fresh_root_grants_floor_of_maximum
         [of "\<lparr>maximumCapacity = 5 / 2, refillRate = 1, parent = None\<rparr>" "initial_world (\<lambda>_. 0)" 0]
  show ?thesis by (simp add: numeral_3_eq_3 numeral_2_eq_2)
qed

subsection \<open>Refill after one second\<close>

lemma take_times_Suc_Some:
  "take_times (Suc n) this w = Some (rs, w') \<Longrightarrow>
     \<exists>r w1 rs'. take_token this w = Some (r, w1) \<and> take_times n this w1 = Some (rs', w') \<and>
       rs = r # rs'"
  by (auto split: bind_splits)

lemma take_times_11_after_one_second:
  assumes wf: "wf_world w" and lt: "this < length (heap w)"
    and root: "parent (options (heap w ! this)) = None"
    and M: "maximumCapacity (options (heap w ! this)) = 100"
    and R: "refillRate (options (heap w ! this)) = 10"
    and zero: "capacity (heap w ! this) = 0"
    and st: "still (lastTimestamp (heap w ! this) + 1000) w"
  shows "\<exists>w'. take_times 11 this w = Some (replicate 10 0 @ [1 / 10], w')"
proof -
  let ?c = "lastTimestamp (heap w ! this) + 1000"
  from take_times_total[OF wf lt] obtain rs w' where ts: "take_times 11 this w = Some (rs, w')"
    by blast
  have e: "(11::nat) = Suc 10" by simp
  from take_times_Suc_Some[OF ts[unfolded e]] obtain r w1 rs'
    where t: "take_token this w = Some (r, w1)"
    and ts': "take_times 10 this w1 = Some (rs', w')" and rs: "rs = r # rs'"
    by blast
  have ch: "chain (heap w) this = [this]" using root by (rule chain_root)
  have rf: "refilled (heap w ! this) ?c = 10"
    by (simp add: refilled_def elapsedTimeInSeconds_def M R zero)
  note fr = take_token_frame[OF wf lt t]
  from fr lt have wf1: "wf_world w1" and lt1: "this < length (heap w1)" by simp_all
  note one = take_token_still[OF wf lt st t, unfolded ch]
  note rest = take_token_comes_to_rest[OF wf lt st t, of 0]
  from one have r: "r = 0" and cap1: "capacity (heap w1 ! this) = 9"
    by (simp_all add: deficit_time_def rf R)
  from fr have o1: "options (heap w1 ! this) = options (heap w ! this)" by simp
  have wa: "wait_after (heap w1) this k = max 0 ((real k - 8) / 10)" for k
    using rest unfolding wait_after_def by (simp add: ch cap1 o1 R)
  from one rest have st1: "still ?c w1" and rest1: "at_rest ?c (heap w1) this" by simp_all
  from take_times_at_rest[OF wf1 lt1 st1 rest1 ts']
  have "rs' = map (wait_after (heap w1) this) [0..<10]" by simp
  moreover have "wait_after (heap w1) this = (\<lambda>k. max 0 ((real k - 8) / 10))"
    by (rule ext) (rule wa)
  ultimately have "rs' = map (\<lambda>k. max 0 ((real k - 8) / 10)) [0..<10]" by simp
  then have "rs' = replicate 9 0 @ [1 / 10]"
    by (simp add: upt_rec numeral_eq_Suc)
  with rs r have "rs = replicate 10 0 @ [1 / 10]" by (simp add: numeral_eq_Suc)
  with ts show ?thesis by blast
qed

lemma advanceTimersByTime_fields [simp]:
  "heap (advanceTimersByTime ms w) = heap w"
  "reads (advanceTimersByTime ms w) = reads w"
  "trace (advanceTimersByTime ms w) = trace w"
  by (simp_all add: advanceTimersByTime_def)

lemma wf_advanceTimersByTime [simp]: "wf_world (advanceTimersByTime ms w) = wf_world w"
  by (simp add: wf_world_def)

lemma still_advanceTimersByTime: "still c w \<Longrightarrow> still (c + ms) (advanceTimersByTime ms w)"
  by (simp add: still_def advanceTimersByTime_def)

lemma test_refill_after_one_second_value:
  "test_refill_after_one_second t = Some (replicate 10 0 @ [1 / 10])"
proof -
  let ?opts = "\<lparr>maximumCapacity = 100, refillRate = 10, parent = None\<rparr>"
  let ?w = "initial_world (\<lambda>_. t)"
  have wf: "wf_world ?w" and st: "still t ?w"
    by (simp_all add: wf_world_def still_def initial_world_def)
  obtain w1 where new: "new_HierarchicalTokenBucket ?opts ?w = Inr (0, w1)"
    by (simp add: new_HierarchicalTokenBucket_Inr initial_world_def)
  note f = new_HierarchicalTokenBucket_fields[OF new]
  have wf1: "wf_world w1" using wf_new[OF wf new] by simp
  have lt1: "0 < length (heap w1)" using f(1) by simp
  note r = new_root_at_rest[OF new _ st, simplified]
  from take_times_total[OF wf1 lt1] obtain rs w2 where ts: "take_times 100 0 w1 = Some (rs, w2)"
    by blast
  have dep: "depleteBucketByCapacity 0 100 w1 = Some w2"
    using depleteBucketByCapacity_take_times[of 0 100 w1] ts by simp
  note fr = take_times_frame[OF wf1 lt1 ts]
  note run = take_times_at_rest[OF wf1 lt1 r(1,3) ts, unfolded r(2)]
  let ?w3 = "advanceTimersByTime 1000 w2"
  have last2: "lastTimestamp (heap w2 ! 0) = t"
    using run at_restD[of t "heap w2" 0 0] by (simp add: r(2))
  have "wf_world ?w3" "0 < length (heap ?w3)" "parent (options (heap ?w3 ! 0)) = None"
    "maximumCapacity (options (heap ?w3 ! 0)) = 100" "refillRate (options (heap ?w3 ! 0)) = 10"
    "capacity (heap ?w3 ! 0) = 0" "still (lastTimestamp (heap ?w3 ! 0) + 1000) ?w3"
    using fr lt1 run f(6) last2 by (simp_all add: still_advanceTimersByTime)
  from take_times_11_after_one_second[OF this] obtain w4
    where "take_times 11 0 ?w3 = Some (replicate 10 0 @ [1 / 10], w4)" by blast
  then show ?thesis
    unfolding test_refill_after_one_second_def
    by (simp only: new dep sum.case prod.case option.case option.map fst_conv)
qed

text \<open>
  C7. A parentless bucket with maximum capacity 100 and refill rate 10 whose capacity is 0:
  when every reading of the clock from now on is 1000 ms after the bucket's last refill, the
  next ten calls of \<^verbatim>\<open>take\<close> return 0 and the eleventh returns 1/10. The repository's
  test of this (construct, deplete by 100, advance the timers by 1000 ms, take eleven
  times) evaluates to the same eleven values.
\<close>

theorem ten_free_takes_after_one_second:
  "(wf_world w \<and> this < length (heap w) \<and> parent (options (heap w ! this)) = None \<and>
    maximumCapacity (options (heap w ! this)) = 100 \<and> refillRate (options (heap w ! this)) = 10 \<and>
    capacity (heap w ! this) = 0 \<and> still (lastTimestamp (heap w ! this) + 1000) w \<longrightarrow>
      (\<exists>w'. take_times 11 this w = Some (replicate 10 0 @ [1 / 10], w'))) \<and>
   (\<forall>t. test_refill_after_one_second t = Some (replicate 10 0 @ [1 / 10]))"
  using take_times_11_after_one_second[of w this] test_refill_after_one_second_value by blast

theorem ten_free_takes_after_one_second_witness:
  "\<exists>w'. take_times 11 0
      \<lparr>heap = [\<lparr>options = \<lparr>maximumCapacity = 100, refillRate = 10, parent = None\<rparr>,
                lastTimestamp = 5000, capacity = 0, firstTimestamp = Some 5000, count = 100\<rparr>],
       clock = (\<lambda>_. 6000), reads = 102, trace = []\<rparr>
     = Some ([0, 0, 0, 0, 0, 0, 0, 0, 0, 0, 1 / 10], w')"
  using ten_free_takes_after_one_second
    [of "\<lparr>heap = [\<lparr>options = \<lparr>maximumCapacity = 100, refillRate = 10, parent = None\<rparr>,
                lastTimestamp = 5000, capacity = 0, firstTimestamp = Some 5000, count = 100\<rparr>],
       clock = (\<lambda>_. 6000), reads = 102, trace = []\<rparr>" 0]
  by (simp add: wf_world_def valid_bucket_def still_def numeral_eq_Suc)

subsection \<open>The first timestamp\<close>

lemma take_token_root:
  assumes "parent (options (heap w ! this)) = None" and "this < length (heap w)"
  shows "take_token this w =
           Some (max 0 (max (deficit_time (heap w ! this) (clock w (refresh_reading this w))) 0),
                 debit this (entered this w))"
  using assms by (subst take_unfold) (simp add: deficit_time_def)

lemma take_token_this:
  assumes "wf_world w" and "this < length (heap w)" and "take_token this w = Some (r, w')"
  shows "heap w' ! this = (heap (entered this w) ! this)
           \<lparr>capacity := capacity (heap (entered this w) ! this) - 1\<rparr>"
proof (cases "parent (options (heap w ! this))")
  case None
  from assms(3) show ?thesis
    unfolding take_token_root[OF None assms(2)] using assms(2) by auto
next
  case (Some p)
  from wf_worldD[OF assms(1,2)] Some have p: "p < this" by (simp add: valid_bucket_def)
  with assms(2) have pl: "p < length (heap (entered this w))" by simp
  from assms(3) Some assms(2) obtain rp wp where tp: "take_token p (entered this w) = Some (rp, wp)"
    and w': "w' = debit this wp"
    by (subst (asm) take_unfold) (auto split: bind_splits)
  have "this \<notin> set (chain (heap (entered this w)) p)" using chain_le[of this _ p] p by auto
  with take_token_chain[OF wf_entered[OF assms(1)] pl tp]
  have same: "heap wp ! this = heap (entered this w) ! this" by blast
  from take_token_frame[OF wf_entered[OF assms(1)] pl tp] assms(2)
  have "this < length (heap wp)" by simp
  with same w' show ?thesis by simp
qed

lemma firstTimestamp_take_token:
  assumes "wf_world w" and "this < length (heap w)" and "take_token this w = Some (r, w')"
  shows "firstTimestamp (heap w' ! this) =
           (if js_not (firstTimestamp (heap w ! this)) then Some (clock w (reads w))
            else firstTimestamp (heap w ! this))"
  using take_token_this[OF assms] assms(2) by simp

lemma epoch_world_reachable:
  "new_HierarchicalTokenBucket \<lparr>maximumCapacity = 10, refillRate = 1, parent = None\<rparr>
     (initial_world epoch_clock) = Inr (0, epoch_world)"
  by (simp add: new_HierarchicalTokenBucket_Inr initial_world_def epoch_clock_def epoch_world_def)

text \<open>
  C9, at the failing input. The clock reads 0 during the first \<^verbatim>\<open>take\<close> and 5 afterwards:
  the first call records \<^verbatim>\<open>firstTimestamp = 0\<close>, and the second call, finding \<open>0\<close> falsy in
  \<^verbatim>\<open>if (!this.firstTimestamp)\<close>, overwrites it with 5.
\<close>

theorem first_timestamp_overwritten_after_epoch:
  "firstTimestamp (heap epoch_world ! 0) = None \<and>
   firstTimestamp_after 0 (take_token 0 epoch_world) = Some (Some 0) \<and>
   firstTimestamp_after 0 (Option.bind (take_token 0 epoch_world) (\<lambda>(r, w). take_token 0 w))
     = Some (Some 5)"
proof -
  have wf: "wf_world epoch_world" and lt: "0 < length (heap epoch_world)"
    by (simp_all add: wf_world_def valid_bucket_def epoch_world_def)
  from take_token_total[OF wf lt] obtain r1 w1 where t1: "take_token 0 epoch_world = Some (r1, w1)"
    by blast
  note fr1 = take_token_frame[OF wf lt t1]
  from fr1 lt have wf1: "wf_world w1" and lt1: "0 < length (heap w1)" by simp_all
  from take_token_total[OF wf1 lt1] obtain r2 w2 where t2: "take_token 0 w1 = Some (r2, w2)"
    by blast
  have f1: "firstTimestamp (heap w1 ! 0) = Some 0"
    using firstTimestamp_take_token[OF wf lt t1]
    by (simp add: epoch_world_def epoch_clock_def js_not_def)
  have root: "parent (options (heap epoch_world ! 0)) = None" by (simp add: epoch_world_def)
  from t1 take_token_root[OF root lt] have w1: "w1 = debit 0 (entered 0 epoch_world)" by simp
  have "reads w1 = 3"
    unfolding w1 by (simp add: refresh_reading_def js_not_def epoch_world_def)
  then have f2: "firstTimestamp (heap w2 ! 0) = Some 5"
    using firstTimestamp_take_token[OF wf1 lt1 t2] f1 fr1
    by (simp add: js_not_def epoch_world_def epoch_clock_def)
  show ?thesis
    by (simp add: firstTimestamp_after_def t1 t2 f1 f2) (simp add: epoch_world_def)
qed

subsection \<open>Deriving a child\<close>

text \<open>
  C8. A derivation that succeeds returns a new bucket (the next free reference) whose
  parent is the receiver; with no overrides its maximum capacity and refill rate are the
  receiver's, and on a well-formed store such a derivation always succeeds. Every bucket
  that existed before, the receiver among them, is unchanged: capacity, last timestamp,
  first timestamp and count of takes.
\<close>

theorem child_links_and_leaves_receiver:
  "(this < length (heap w) \<and> child this ov w = Inr (c, w') \<longrightarrow>
      c = length (heap w) \<and> length (heap w') = Suc (length (heap w)) \<and>
      parent (options (heap w' ! c)) = Some this \<and>
      (ov = None \<longrightarrow>
         maximumCapacity (options (heap w' ! c)) = maximumCapacity (options (heap w ! this)) \<and>
         refillRate (options (heap w' ! c)) = refillRate (options (heap w ! this))) \<and>
      capacity (heap w' ! this) = capacity (heap w ! this) \<and>
      lastTimestamp (heap w' ! this) = lastTimestamp (heap w ! this) \<and>
      firstTimestamp (heap w' ! this) = firstTimestamp (heap w ! this) \<and>
      count (heap w' ! this) = count (heap w ! this) \<and>
      (\<forall>j<length (heap w). heap w' ! j = heap w ! j)) \<and>
   (wf_world w \<and> this < length (heap w) \<longrightarrow>
      (\<exists>w'. child this None w = Inr (length (heap w), w')))"
proof (rule conjI; rule impI)
  assume a: "this < length (heap w) \<and> child this ov w = Inr (c, w')"
  then have lt: "this < length (heap w)" and ch: "child this ov w = Inr (c, w')" by simp_all
  note d = new_HierarchicalTokenBucket_InrD[OF ch[unfolded child_def]]
  note f = new_HierarchicalTokenBucket_fields[OF ch[unfolded child_def]]
  show "c = length (heap w) \<and> length (heap w') = Suc (length (heap w)) \<and>
      parent (options (heap w' ! c)) = Some this \<and>
      (ov = None \<longrightarrow>
         maximumCapacity (options (heap w' ! c)) = maximumCapacity (options (heap w ! this)) \<and>
         refillRate (options (heap w' ! c)) = refillRate (options (heap w ! this))) \<and>
      capacity (heap w' ! this) = capacity (heap w ! this) \<and>
      lastTimestamp (heap w' ! this) = lastTimestamp (heap w ! this) \<and>
      firstTimestamp (heap w' ! this) = firstTimestamp (heap w ! this) \<and>
      count (heap w' ! this) = count (heap w ! this) \<and>
      (\<forall>j<length (heap w). heap w' ! j = heap w ! j)"
    using d(3) f(1) f(5) f(6) lt by simp
next
  assume "wf_world w \<and> this < length (heap w)"
  then have "valid_bucket (heap w) this" by (simp add: wf_worldD)
  then show "\<exists>w'. child this None w = Inr (length (heap w), w')"
    by (simp add: child_def valid_bucket_def new_HierarchicalTokenBucket_Inr)
qed

theorem child_links_and_leaves_receiver_witness:
  "\<exists>w'. child 2 None (three_levels 0) = Inr (3, w') \<and>
     parent (options (heap w' ! 3)) = Some 2 \<and>
     maximumCapacity (options (heap w' ! 3)) = 1000 \<and> refillRate (options (heap w' ! 3)) = 100 \<and>
     capacity (heap w' ! 2) = 1000 \<and> lastTimestamp (heap w' ! 2) = 0 \<and>
     firstTimestamp (heap w' ! 2) = None \<and> count (heap w' ! 2) = 0"
proof -
  let ?w = "three_levels 0"
  have pre: "wf_world ?w" "2 < length (heap ?w)"
    by (simp_all add: three_levels_facts)
  have len: "length (heap ?w) = 3" by (simp add: three_levels_def)
  from child_links_and_leaves_receiver[of 2 ?w None 3 ?w] pre
  have "\<exists>w'. child 2 None ?w = Inr (3, w')" by (simp add: len)
  then obtain w' where c: "child 2 None ?w = Inr (3, w')" by blast
  from child_links_and_leaves_receiver[of 2 ?w None 3 w'] pre c
  show ?thesis by (simp add: three_levels_def)
qed

subsection \<open>The capacity never exceeds the maximum\<close>

lemma capacity_boundedD:
  "capacity_bounded w \<Longrightarrow> j < length (heap w) \<Longrightarrow>
     capacity (heap w ! j) \<le> maximumCapacity (options (heap w ! j))"
  by (simp add: capacity_bounded_def list_all_length)

lemma capacity_boundedI:
  "(\<And>j. j < length (heap w) \<Longrightarrow> capacity (heap w ! j) \<le> maximumCapacity (options (heap w ! j)))
     \<Longrightarrow> capacity_bounded w"
  by (simp add: capacity_bounded_def list_all_length)

lemma capacity_bounded_new:
  assumes "new_HierarchicalTokenBucket opts w = Inr (this, w')" and "capacity_bounded w"
  shows "capacity_bounded w'"
proof (rule capacity_boundedI)
  note d = new_HierarchicalTokenBucket_InrD[OF assms(1)]
  note f = new_HierarchicalTokenBucket_fields[OF assms(1)]
  fix j assume "j < length (heap w')"
  then consider "j < length (heap w)" | "j = this" using f(1) d(3) by linarith
  then show "capacity (heap w' ! j) \<le> maximumCapacity (options (heap w' ! j))"
  proof cases
    case 1
    with capacity_boundedD[OF assms(2) 1] f(5)[OF 1] show ?thesis by simp
  next
    case 2
    with f(6) show ?thesis by simp
  qed
qed

lemma refreshCapacity_clamps:
  "i < length (heap w) \<Longrightarrow>
     capacity (heap (refreshCapacity i w) ! i) \<le> maximumCapacity (options (heap (refreshCapacity i w) ! i))"
  by (simp add: refreshCapacity_eq refilled_le)

lemma capacity_bounded_refreshCapacity:
  assumes "capacity_bounded w"
  shows "capacity_bounded (refreshCapacity i w)"
proof (rule capacity_boundedI)
  fix j assume "j < length (heap (refreshCapacity i w))"
  then have j: "j < length (heap w)" by (simp add: refreshCapacity_eq)
  show "capacity (heap (refreshCapacity i w) ! j) \<le> maximumCapacity (options (heap (refreshCapacity i w) ! j))"
  proof (cases "j = i")
    case True
    with j show ?thesis by (simp add: refreshCapacity_clamps)
  next
    case False
    with capacity_boundedD[OF assms j] show ?thesis by (simp add: refreshCapacity_eq)
  qed
qed

lemma capacity_bounded_debit:
  assumes "capacity_bounded w"
  shows "capacity_bounded (debit i w)"
proof (rule capacity_boundedI)
  fix j assume "j < length (heap (debit i w))"
  then have j: "j < length (heap w)" by simp
  from capacity_boundedD[OF assms j]
  show "capacity (heap (debit i w) ! j) \<le> maximumCapacity (options (heap (debit i w) ! j))"
    using j by (cases "j = i") simp_all
qed

lemma capacity_bounded_take_token:
  assumes "wf_world w" and "i < length (heap w)" and "capacity_bounded w"
    and "take_token i w = Some (r, w')"
  shows "capacity_bounded w'"
proof (rule capacity_boundedI)
  note fr = take_token_frame[OF assms(1,2,4)]
  note ch = take_token_chain[OF assms(1,2,4)]
  fix j assume "j < length (heap w')"
  then have j: "j < length (heap w)" using fr by simp
  from fr have o: "options (heap w' ! j) = options (heap w ! j)" by simp
  show "capacity (heap w' ! j) \<le> maximumCapacity (options (heap w' ! j))"
  proof (cases "j \<in> set (chain (heap w) i)")
    case True
    with ch have "capacity (heap w' ! j) = refilled (heap w ! j) (lastTimestamp (heap w' ! j)) - 1"
      by blast
    moreover have "refilled (heap w ! j) (lastTimestamp (heap w' ! j)) \<le> maximumCapacity (options (heap w ! j))"
      by (rule refilled_le)
    ultimately show ?thesis unfolding o by linarith
  next
    case False
    with ch have "heap w' ! j = heap w ! j" by blast
    with capacity_boundedD[OF assms(3) j] show ?thesis by simp
  qed
qed

lemma metadata_unfold:
  "metadata this w =
     (case parent (options (heap w ! this)) of
        None \<Rightarrow>
          Some (Metadata \<lparr>maximumCapacity = maximumCapacity (options (heap w ! this)),
                           refillRate = refillRate (options (heap w ! this))\<rparr>
                  \<lparr>metrics_firstTimestamp = firstTimestamp (heap w ! this),
                    metrics_lastTimestamp = lastTimestamp (heap w ! this),
                    metrics_count = count (heap w ! this),
                    metrics_capacity = capacity (heap w ! this)\<rparr> None)
      | Some p \<Rightarrow>
          Option.bind (metadata p w) (\<lambda>m.
            Some (Metadata \<lparr>maximumCapacity = maximumCapacity (options (heap w ! this)),
                             refillRate = refillRate (options (heap w ! this))\<rparr>
                    \<lparr>metrics_firstTimestamp = firstTimestamp (heap w ! this),
                      metrics_lastTimestamp = lastTimestamp (heap w ! this),
                      metrics_count = count (heap w ! this),
                      metrics_capacity = capacity (heap w ! this)\<rparr> (Some m))))"
  by (subst metadata.simps) (simp add: Let_def)

lemma metadata_total:
  assumes "wf_world w" and "this < length (heap w)"
  shows "\<exists>m. metadata this w = Some m \<and>
           metrics_capacity (metadata_metrics m) = capacity (heap w ! this)"
  using assms(2)
proof (induction this rule: less_induct)
  case (less this)
  show ?case
  proof (cases "parent (options (heap w ! this))")
    case None
    then show ?thesis by (subst metadata_unfold) simp
  next
    case (Some p)
    from wf_worldD[OF assms(1) less.prems] Some have p: "p < this" by (simp add: valid_bucket_def)
    with less.prems have "p < length (heap w)" by simp
    from less.IH[OF p this] obtain m where "metadata p w = Some m" by blast
    with Some show ?thesis by (subst metadata_unfold) simp
  qed
qed

lemma drained_world_reachable:
  "\<exists>w1. new_HierarchicalTokenBucket \<lparr>maximumCapacity = 1, refillRate = 1, parent = None\<rparr>
           (initial_world (\<lambda>_. 7)) = Inr (0, w1) \<and>
        take_token 0 w1 = Some (0, drained_world)"
proof -
  let ?w1 = "\<lparr>heap = [\<lparr>options = \<lparr>maximumCapacity = 1, refillRate = 1, parent = None\<rparr>,
               lastTimestamp = 7, capacity = 1, firstTimestamp = None, count = 0\<rparr>],
      clock = (\<lambda>_. 7), reads = 1, trace = []\<rparr>"
  have "new_HierarchicalTokenBucket \<lparr>maximumCapacity = 1, refillRate = 1, parent = None\<rparr>
           (initial_world (\<lambda>_. 7)) = Inr (0, ?w1)"
    by (simp add: new_HierarchicalTokenBucket_Inr initial_world_def)
  moreover have "take_token 0 ?w1 = Some (0, drained_world)"
    by (subst take_token.simps)
       (simp add: Let_def refreshCapacity_eq addOneToMetrics_eq emit_def debit_def update_bucket_def
          js_not_def refilled_def elapsedTimeInSeconds_def drained_world_def)
  ultimately show ?thesis by blast
qed

text \<open>
  C3. \<open>capacity \<le> maximumCapacity\<close> holds of a new bucket (with equality) and, once it
  holds of every bucket of the store, it still does after a construction, a refill, a debit,
  a whole call of \<^verbatim>\<open>take\<close> and the derivation of a child. A refill clamps the capacity of
  its bucket at the maximum whatever it was before; a debit subtracts exactly one and has no
  lower bound, so a bucket with less than one token is left with a negative capacity; a
  derivation leaves the capacities of the existing buckets as they are; the metadata getter
  returns a snapshot that reports the capacity and no store.
\<close>

theorem capacity_never_exceeds_maximum:
  "(new_HierarchicalTokenBucket opts w = Inr (this, w1) \<and> capacity_bounded w \<longrightarrow>
      capacity (heap w1 ! this) = maximumCapacity (options (heap w1 ! this)) \<and>
      capacity_bounded w1) \<and>
   (i < length (heap w) \<longrightarrow>
      capacity (heap (refreshCapacity i w) ! i)
        \<le> maximumCapacity (options (heap (refreshCapacity i w) ! i))) \<and>
   (capacity_bounded w \<longrightarrow> capacity_bounded (refreshCapacity i w)) \<and>
   (i < length (heap w) \<longrightarrow> capacity (heap (debit i w) ! i) = capacity (heap w ! i) - 1) \<and>
   (i < length (heap w) \<and> capacity (heap w ! i) < 1 \<longrightarrow> capacity (heap (debit i w) ! i) < 0) \<and>
   (capacity_bounded w \<longrightarrow> capacity_bounded (debit i w)) \<and>
   (wf_world w \<and> i < length (heap w) \<and> capacity_bounded w \<longrightarrow>
      (\<exists>r w2. take_token i w = Some (r, w2) \<and> capacity_bounded w2)) \<and>
   (capacity_bounded w \<and> child i ov w = Inr (c, w3) \<longrightarrow>
      capacity_bounded w3 \<and>
      (\<forall>j<length (heap w). capacity (heap w3 ! j) = capacity (heap w ! j))) \<and>
   (wf_world w \<and> i < length (heap w) \<longrightarrow>
      (\<exists>m. metadata i w = Some m \<and>
           metrics_capacity (metadata_metrics m) = capacity (heap w ! i)))"
proof -
  have new: "capacity (heap w1 ! this) = maximumCapacity (options (heap w1 ! this)) \<and>
      capacity_bounded w1"
    if "new_HierarchicalTokenBucket opts w = Inr (this, w1) \<and> capacity_bounded w"
    using that new_HierarchicalTokenBucket_fields(6)[of opts w this w1]
      capacity_bounded_new[of opts w this w1] by simp
  have deb: "capacity (heap (debit i w) ! i) = capacity (heap w ! i) - 1" if "i < length (heap w)"
    using that by simp
  have tk: "\<exists>r w2. take_token i w = Some (r, w2) \<and> capacity_bounded w2"
    if "wf_world w \<and> i < length (heap w) \<and> capacity_bounded w"
  proof -
    from that take_token_total[of w i] obtain r w2 where "take_token i w = Some (r, w2)" by blast
    with that capacity_bounded_take_token[of w i r w2] show ?thesis by blast
  qed
  have ch: "capacity_bounded w3 \<and>
      (\<forall>j<length (heap w). capacity (heap w3 ! j) = capacity (heap w ! j))"
    if "capacity_bounded w \<and> child i ov w = Inr (c, w3)"
  proof -
    from that have b: "capacity_bounded w" and n: "child i ov w = Inr (c, w3)" by simp_all
    from capacity_bounded_new[OF n[unfolded child_def] b]
      new_HierarchicalTokenBucket_fields(5)[OF n[unfolded child_def]]
    show ?thesis by simp
  qed
  from new deb tk ch show ?thesis
    using refreshCapacity_clamps[of i w] capacity_bounded_refreshCapacity[of w i]
      capacity_bounded_debit[of w i] metadata_total[of w i]
    by (intro conjI impI) (simp_all)
qed

theorem capacity_never_exceeds_maximum_witness:
  "capacity_bounded drained_world \<and>
   (\<exists>w1. new_HierarchicalTokenBucket \<lparr>maximumCapacity = 2, refillRate = 1, parent = None\<rparr>
            drained_world = Inr (1, w1) \<and>
         capacity (heap w1 ! 1) = 2 \<and> capacity_bounded w1) \<and>
   capacity (heap (refreshCapacity 0 drained_world) ! 0) \<le> 1 \<and>
   capacity_bounded (refreshCapacity 0 drained_world) \<and>
   capacity (heap (debit 0 drained_world) ! 0) = - 1 \<and>
   capacity_bounded (debit 0 drained_world) \<and>
   (\<exists>r w2. take_token 0 drained_world = Some (r, w2) \<and> capacity_bounded w2) \<and>
   (\<exists>w3. child 0 None drained_world = Inr (1, w3) \<and> capacity_bounded w3 \<and>
         capacity (heap w3 ! 0) = 0) \<and>
   (\<exists>m. metadata 0 drained_world = Some m \<and> metrics_capacity (metadata_metrics m) = 0)"
proof -
  let ?w = "drained_world"
  let ?opts = "\<lparr>maximumCapacity = 2, refillRate = 1, parent = None\<rparr>"
  have b: "capacity_bounded ?w" and wf: "wf_world ?w" and lt: "0 < length (heap ?w)"
    and len: "length (heap ?w) = 1" and cap: "capacity (heap ?w ! 0) = 0"
    and o: "options (heap ?w ! 0) = \<lparr>maximumCapacity = 1, refillRate = 1, parent = None\<rparr>"
    by (simp_all add: capacity_bounded_def wf_world_def valid_bucket_def drained_world_def)
  obtain w1 where n: "new_HierarchicalTokenBucket ?opts ?w = Inr (1, w1)"
    by (simp add: new_HierarchicalTokenBucket_Inr len)
  obtain w3 where c: "child 0 None ?w = Inr (1, w3)"
    by (simp add: child_def new_HierarchicalTokenBucket_Inr len o)
  note f = new_HierarchicalTokenBucket_fields[OF n]
  have ro: "maximumCapacity (options (heap (refreshCapacity 0 ?w) ! 0)) = 1"
    by (simp add: refreshCapacity_eq drained_world_def)
  from capacity_never_exceeds_maximum
         [where opts = ?opts and w = ?w and this = 1 and ?w1.0 = w1 and i = 0 and ov = None
            and c = 1 and ?w3.0 = w3]
       b wf lt n c
  show ?thesis
    by (simp add: len cap f(6)[unfolded One_nat_def] o ro)
qed

subsection \<open>Refill and the clock\<close>

lemma set_back_world_reachable:
  "\<exists>w1. new_HierarchicalTokenBucket \<lparr>maximumCapacity = 10, refillRate = 1, parent = None\<rparr>
           (initial_world set_back_clock) = Inr (0, w1) \<and>
        take_token 0 w1 = Some (0, set_back_world)"
proof -
  let ?w1 = "\<lparr>heap = [\<lparr>options = \<lparr>maximumCapacity = 10, refillRate = 1, parent = None\<rparr>,
               lastTimestamp = 1000, capacity = 10, firstTimestamp = None, count = 0\<rparr>],
      clock = set_back_clock, reads = 1, trace = []\<rparr>"
  have "new_HierarchicalTokenBucket \<lparr>maximumCapacity = 10, refillRate = 1, parent = None\<rparr>
           (initial_world set_back_clock) = Inr (0, ?w1)"
    by (simp add: new_HierarchicalTokenBucket_Inr initial_world_def set_back_clock_def)
  moreover have "take_token 0 ?w1 = Some (0, set_back_world)"
    by (subst take_token.simps)
       (simp add: Let_def refreshCapacity_eq addOneToMetrics_eq emit_def debit_def update_bucket_def
          js_not_def refilled_def elapsedTimeInSeconds_def set_back_clock_def set_back_world_def)
  ultimately show ?thesis by blast
qed

text \<open>
  C5, the claim refuted. After the clock is set back from 1000 to 0 the refill computes an
  elapsed time of -1 s, lowers the capacity from 9 to 8 and moves the last timestamp back
  from 1000 to 0: nothing clamps the elapsed time.
\<close>

theorem refill_after_clock_set_back:
  "elapsedTimeInSeconds (clock set_back_world (reads set_back_world))
     (lastTimestamp (heap set_back_world ! 0)) < 0 \<and>
   capacity (heap (refreshCapacity 0 set_back_world) ! 0) < capacity (heap set_back_world ! 0) \<and>
   lastTimestamp (heap (refreshCapacity 0 set_back_world) ! 0)
     < lastTimestamp (heap set_back_world ! 0)"
  by (simp add: refreshCapacity_eq refilled_def elapsedTimeInSeconds_def set_back_world_def
        set_back_clock_def)

lemma timestamps_behindD:
  "timestamps_behind w \<Longrightarrow> j < length (heap w) \<Longrightarrow> lastTimestamp (heap w ! j) \<le> clock w (reads w)"
  by (simp add: timestamps_behind_def list_all_length)

lemma timestamps_behindI:
  "(\<And>j. j < length (heap w) \<Longrightarrow> lastTimestamp (heap w ! j) \<le> clock w (reads w))
     \<Longrightarrow> timestamps_behind w"
  by (simp add: timestamps_behind_def list_all_length)

lemma mono_clockD: "mono_clock w \<Longrightarrow> m \<le> n \<Longrightarrow> clock w m \<le> clock w n"
  by (simp add: mono_clock_def)

lemma refreshCapacity_forward:
  assumes "this < length (heap w)" and "lastTimestamp (heap w ! this) \<le> clock w (reads w)"
    and "0 < refillRate (options (heap w ! this))"
    and "capacity (heap w ! this) \<le> maximumCapacity (options (heap w ! this))"
  shows "0 \<le> elapsedTimeInSeconds (clock w (reads w)) (lastTimestamp (heap w ! this))"
    and "capacity (heap w ! this) \<le> capacity (heap (refreshCapacity this w) ! this)"
    and "lastTimestamp (heap w ! this) \<le> lastTimestamp (heap (refreshCapacity this w) ! this)"
proof -
  show e: "0 \<le> elapsedTimeInSeconds (clock w (reads w)) (lastTimestamp (heap w ! this))"
    using assms(2) by (simp add: elapsedTimeInSeconds_def)
  with assms(3)
  have "0 \<le> refillRate (options (heap w ! this)) *
          elapsedTimeInSeconds (clock w (reads w)) (lastTimestamp (heap w ! this))"
    by simp
  with assms(1,4) show "capacity (heap w ! this) \<le> capacity (heap (refreshCapacity this w) ! this)"
    by (simp add: refreshCapacity_eq refilled_def)
  show "lastTimestamp (heap w ! this) \<le> lastTimestamp (heap (refreshCapacity this w) ! this)"
    using assms(1,2) by (simp add: refreshCapacity_eq)
qed

lemma take_token_timestamps:
  assumes "wf_world w" and "this < length (heap w)" and "mono_clock w" and "timestamps_behind w"
    and "take_token this w = Some (r, w')"
  shows "(\<forall>j<length (heap w). lastTimestamp (heap w ! j) \<le> lastTimestamp (heap w' ! j)) \<and>
         timestamps_behind w' \<and> mono_clock w'"
proof -
  note fr = take_token_frame[OF assms(1,2,5)]
  note ch = take_token_chain[OF assms(1,2,5)]
  have cases: "(\<exists>n\<ge>reads w. n < reads w' \<and> lastTimestamp (heap w' ! j) = clock w n) \<or>
               heap w' ! j = heap w ! j" for j
    using ch by (cases "j \<in> set (chain (heap w) this)") blast+
  have up: "lastTimestamp (heap w ! j) \<le> lastTimestamp (heap w' ! j)" if j: "j < length (heap w)" for j
    using cases[of j]
  proof
    assume "\<exists>n\<ge>reads w. n < reads w' \<and> lastTimestamp (heap w' ! j) = clock w n"
    then obtain n where n: "reads w \<le> n" "lastTimestamp (heap w' ! j) = clock w n" by blast
    from timestamps_behindD[OF assms(4) j] mono_clockD[OF assms(3) n(1)] n(2)
    show ?thesis by simp
  next
    assume "heap w' ! j = heap w ! j"
    then show ?thesis by simp
  qed
  have behind: "timestamps_behind w'"
  proof (rule timestamps_behindI)
    fix j assume "j < length (heap w')"
    then have j: "j < length (heap w)" using fr by simp
    from cases[of j] show "lastTimestamp (heap w' ! j) \<le> clock w' (reads w')"
    proof
      assume "\<exists>n\<ge>reads w. n < reads w' \<and> lastTimestamp (heap w' ! j) = clock w n"
      then obtain n where n: "n < reads w'" "lastTimestamp (heap w' ! j) = clock w n" by blast
      from mono_clockD[OF assms(3), of n "reads w'"] n fr show ?thesis by simp
    next
      assume "heap w' ! j = heap w ! j"
      with timestamps_behindD[OF assms(4) j] mono_clockD[OF assms(3), of "reads w" "reads w'"] fr
      show ?thesis by simp
    qed
  qed
  have "mono_clock w'" using assms(3) fr by (simp add: mono_clock_def)
  with up behind show ?thesis by blast
qed

lemma new_timestamps:
  assumes "new_HierarchicalTokenBucket opts w = Inr (this, w')" and "mono_clock w"
    and "timestamps_behind w"
  shows "timestamps_behind w' \<and> mono_clock w'"
proof -
  note d = new_HierarchicalTokenBucket_InrD[OF assms(1)]
  note f = new_HierarchicalTokenBucket_fields[OF assms(1)]
  have step: "clock w (reads w) \<le> clock w (Suc (reads w))"
    using mono_clockD[OF assms(2), of "reads w" "Suc (reads w)"] by simp
  have "timestamps_behind w'"
  proof (rule timestamps_behindI)
    fix j assume "j < length (heap w')"
    then consider "j < length (heap w)" | "j = this" using f(1) d(3) by linarith
    then show "lastTimestamp (heap w' ! j) \<le> clock w' (reads w')"
    proof cases
      case 1
      with timestamps_behindD[OF assms(3) 1] f(5)[OF 1] step f(2,3) show ?thesis by simp
    next
      case 2
      with f(6) step f(2,3) show ?thesis by simp
    qed
  qed
  moreover have "mono_clock w'" using assms(2) f(2) by (simp add: mono_clock_def)
  ultimately show ?thesis by blast
qed

text \<open>
  C5 as amended. When the reading a refill takes is not earlier than the bucket's last
  timestamp, the elapsed time is not negative, the refill does not lower a capacity that is
  within its maximum (the refill rate being positive), and the last timestamp does not go
  back. Under a clock whose readings never decrease, no last timestamp of the store goes
  back in a call of \<^verbatim>\<open>take\<close>, and constructions and calls keep every last timestamp at or
  before the next reading.
\<close>

theorem refill_forward_when_clock_is:
  "(this < length (heap w) \<and> lastTimestamp (heap w ! this) \<le> clock w (reads w) \<and>
    0 < refillRate (options (heap w ! this)) \<and>
    capacity (heap w ! this) \<le> maximumCapacity (options (heap w ! this)) \<longrightarrow>
      0 \<le> elapsedTimeInSeconds (clock w (reads w)) (lastTimestamp (heap w ! this)) \<and>
      capacity (heap w ! this) \<le> capacity (heap (refreshCapacity this w) ! this) \<and>
      lastTimestamp (heap w ! this) \<le> lastTimestamp (heap (refreshCapacity this w) ! this)) \<and>
   (wf_world w \<and> this < length (heap w) \<and> mono_clock w \<and> timestamps_behind w \<longrightarrow>
      (\<exists>r w'. take_token this w = Some (r, w') \<and>
         (\<forall>j<length (heap w). lastTimestamp (heap w ! j) \<le> lastTimestamp (heap w' ! j)) \<and>
         timestamps_behind w' \<and> mono_clock w')) \<and>
   (mono_clock w \<and> timestamps_behind w \<and> new_HierarchicalTokenBucket opts w = Inr (c, w1) \<longrightarrow>
      timestamps_behind w1 \<and> mono_clock w1)"
proof -
  have tk: "\<exists>r w'. take_token this w = Some (r, w') \<and>
         (\<forall>j<length (heap w). lastTimestamp (heap w ! j) \<le> lastTimestamp (heap w' ! j)) \<and>
         timestamps_behind w' \<and> mono_clock w'"
    if "wf_world w \<and> this < length (heap w) \<and> mono_clock w \<and> timestamps_behind w"
  proof -
    from that take_token_total[of w this] obtain r w' where "take_token this w = Some (r, w')"
      by blast
    with that take_token_timestamps[of w this r w'] show ?thesis by blast
  qed
  show ?thesis
    using refreshCapacity_forward[of this w] tk new_timestamps[of opts w c w1]
    by (intro conjI impI) simp_all
qed

theorem refill_forward_when_clock_is_witness:
  "0 \<le> elapsedTimeInSeconds 507 7 \<and>
   capacity (heap (advanceTimersByTime 500 drained_world) ! 0) = 0 \<and>
   capacity (heap (refreshCapacity 0 (advanceTimersByTime 500 drained_world)) ! 0) = 1 / 2 \<and>
   lastTimestamp (heap (advanceTimersByTime 500 drained_world) ! 0) = 7 \<and>
   lastTimestamp (heap (refreshCapacity 0 (advanceTimersByTime 500 drained_world)) ! 0) = 507 \<and>
   (\<exists>r w'. take_token 0 (advanceTimersByTime 500 drained_world) = Some (r, w') \<and>
      7 \<le> lastTimestamp (heap w' ! 0) \<and> timestamps_behind w') \<and>
   (\<exists>w1. new_HierarchicalTokenBucket \<lparr>maximumCapacity = 2, refillRate = 1, parent = None\<rparr>
           (advanceTimersByTime 500 drained_world) = Inr (1, w1) \<and> timestamps_behind w1)"
proof -
  let ?w = "advanceTimersByTime 500 drained_world"
  let ?opts = "\<lparr>maximumCapacity = 2, refillRate = 1, parent = None\<rparr>"
  have pre: "wf_world ?w" "0 < length (heap ?w)" "mono_clock ?w" "timestamps_behind ?w"
    "lastTimestamp (heap ?w ! 0) = 7" "clock ?w (reads ?w) = 507" "capacity (heap ?w ! 0) = 0"
    "options (heap ?w ! 0) = \<lparr>maximumCapacity = 1, refillRate = 1, parent = None\<rparr>"
    "length (heap ?w) = 1"
    by (simp_all add: wf_world_def valid_bucket_def mono_clock_def timestamps_behind_def
          advanceTimersByTime_def drained_world_def)
  obtain w1 where n: "new_HierarchicalTokenBucket ?opts ?w = Inr (1, w1)"
    by (simp add: new_HierarchicalTokenBucket_Inr drained_world_def)
  have rc: "capacity (heap (refreshCapacity 0 ?w) ! 0) = 1 / 2"
    "lastTimestamp (heap (refreshCapacity 0 ?w) ! 0) = 507"
    using pre by (simp_all add: refreshCapacity_eq refilled_def elapsedTimeInSeconds_def)
  from refill_forward_when_clock_is[of 0 ?w ?opts 1 w1] pre n rc
  show ?thesis by (auto simp add: elapsedTimeInSeconds_def)
qed

subsection \<open>The order of the debits\<close>

lemma trace_of_take_chain:
  assumes "wf_world w" and "this < length (heap w)"
  shows "trace_of_take this w =
           map Called (chain (heap w) this) @ map Debited (rev (chain (heap w) this))"
proof -
  from take_token_total[OF assms] obtain r w' where t: "take_token this w = Some (r, w')" by blast
  from take_token_chain[OF assms t] t show ?thesis by (simp add: trace_of_take_def)
qed

lemma chain_parent_first:
  assumes "parent (options (h ! this)) = Some p" and "p < this"
  shows "\<exists>rest. chain h this = this # p # rest"
  using chain_nested[OF assms] by (subst (asm) (2) chain.simps) simp

text \<open>
  C4, the claim refuted. In the three-level example a call on the child 2 enters the parent 1
  and the grandparent 0 before any debit; the child's own debit is the last event of the
  call, after its parent's call has returned.
\<close>

theorem parent_is_called_before_child_is_debited:
  "trace_of_take 2 (three_levels 0) =
     [Called 2, Called 1, Called 0, Debited 0, Debited 1, Debited 2] \<and>
   \<not> precedes (Debited 2) (Called 1) (trace_of_take 2 (three_levels 0)) \<and>
   precedes (Called 1) (Debited 2) (trace_of_take 2 (three_levels 0))"
proof -
  have "trace_of_take 2 (three_levels 0) =
     [Called 2, Called 1, Called 0, Debited 0, Debited 1, Debited 2]"
    using trace_of_take_chain[of "three_levels 0" 2] by (simp add: three_levels_facts)
  then show ?thesis by simp
qed

text \<open>
  C4 as amended. Within a call of \<^verbatim>\<open>take\<close> on a bucket with a parent, the bucket is
  refilled, then \<^verbatim>\<open>take\<close> is called on the parent, and only after that call has returned
  is the bucket debited: the parent's call runs on the store in which the child is refilled
  and not yet debited, it leaves the child as it is, and the child's debit is applied to the
  store the parent's call returns. In the trace all calls along the chain come first, child
  to root, and then all debits, root to child. The wait returned is the maximum of 0, the
  bucket's own deficit-closing time and the parent's wait, which is the maximum across the
  whole chain.
\<close>

theorem child_is_debited_after_parent_returns:
  "wf_world w \<and> this < length (heap w) \<and> parent (options (heap w ! this)) = Some p \<longrightarrow>
     (\<exists>r w' rp wp.
        take_token this w = Some (r, w') \<and>
        take_token p (entered this w) = Some (rp, wp) \<and>
        capacity (heap (entered this w) ! this) =
          refilled (heap w ! this) (clock w (refresh_reading this w)) \<and>
        heap wp ! this = heap (entered this w) ! this \<and>
        w' = debit this wp \<and>
        capacity (heap w' ! this) =
          refilled (heap w ! this) (clock w (refresh_reading this w)) - 1 \<and>
        trace_of_take this w = Called this # trace_of_take p (entered this w) @ [Debited this] \<and>
        trace_of_take this w =
          map Called (chain (heap w) this) @ map Debited (rev (chain (heap w) this)) \<and>
        precedes (Called p) (Debited this) (trace_of_take this w) \<and>
        \<not> precedes (Debited this) (Called p) (trace_of_take this w) \<and>
        r = max 0 (max (deficit_time (heap w ! this) (clock w (refresh_reading this w))) rp) \<and>
        r = Max (insert 0 ((\<lambda>j. deficit_time (heap w ! j) (lastTimestamp (heap w' ! j))) `
                   set (chain (heap w) this))))"
proof
  assume a: "wf_world w \<and> this < length (heap w) \<and> parent (options (heap w ! this)) = Some p"
  then have wf: "wf_world w" and lt: "this < length (heap w)"
    and par: "parent (options (heap w ! this)) = Some p" by simp_all
  let ?e = "entered this w"
  from wf_worldD[OF wf lt] par have p: "p < this" by (simp add: valid_bucket_def)
  then have ne: "p \<noteq> this" by simp
  have wfe: "wf_world ?e" by (rule wf_entered[OF wf])
  have pl: "p < length (heap ?e)" using p lt by simp
  from take_token_total[OF wfe pl] obtain rp wp where tp: "take_token p ?e = Some (rp, wp)"
    by blast
  note frp = take_token_frame[OF wfe pl tp]
  let ?r = "max 0 (max (deficit_time (heap w ! this) (clock w (refresh_reading this w))) rp)"
  have t: "take_token this w = Some (?r, debit this wp)"
    using par lt tp frp by (subst take_unfold) (simp add: deficit_time_def or_zero_def)
  have "this \<notin> set (chain (heap ?e) p)" using chain_le[of this _ p] p by auto
  with take_token_chain[OF wfe pl tp] have same: "heap wp ! this = heap ?e ! this" by blast
  have lt3: "this < length (heap wp)" using frp lt by simp
  note ch = take_token_chain[OF wf lt t]
  have tr: "trace_of_take this w =
      map Called (chain (heap w) this) @ map Debited (rev (chain (heap w) this))"
    by (rule trace_of_take_chain[OF wf lt])
  have trp: "trace_of_take p ?e =
      map Called (chain (heap w) p) @ map Debited (rev (chain (heap w) p))"
    using trace_of_take_chain[OF wfe pl] by simp
  have c: "chain (heap w) this = this # chain (heap w) p" using par p by (rule chain_nested)
  from chain_parent_first[OF par p] obtain rest where c2: "chain (heap w) this = this # p # rest"
    by blast
  have nest: "trace_of_take this w = Called this # trace_of_take p ?e @ [Debited this]"
    unfolding tr trp c by simp
  have pr: "precedes (Called p) (Debited this) (trace_of_take this w)"
    and npr: "\<not> precedes (Debited this) (Called p) (trace_of_take this w)"
    unfolding tr c2 using ne by simp_all
  have cap: "capacity (heap (debit this wp) ! this) =
      refilled (heap w ! this) (clock w (refresh_reading this w)) - 1"
    using lt3 same lt by simp
  have ce: "capacity (heap ?e ! this) = refilled (heap w ! this) (clock w (refresh_reading this w))"
    using lt by simp
  from t tp ce same cap nest tr pr npr ch
  show "\<exists>r w' rp wp.
        take_token this w = Some (r, w') \<and>
        take_token p (entered this w) = Some (rp, wp) \<and>
        capacity (heap (entered this w) ! this) =
          refilled (heap w ! this) (clock w (refresh_reading this w)) \<and>
        heap wp ! this = heap (entered this w) ! this \<and>
        w' = debit this wp \<and>
        capacity (heap w' ! this) =
          refilled (heap w ! this) (clock w (refresh_reading this w)) - 1 \<and>
        trace_of_take this w = Called this # trace_of_take p (entered this w) @ [Debited this] \<and>
        trace_of_take this w =
          map Called (chain (heap w) this) @ map Debited (rev (chain (heap w) this)) \<and>
        precedes (Called p) (Debited this) (trace_of_take this w) \<and>
        \<not> precedes (Debited this) (Called p) (trace_of_take this w) \<and>
        r = max 0 (max (deficit_time (heap w ! this) (clock w (refresh_reading this w))) rp) \<and>
        r = Max (insert 0 ((\<lambda>j. deficit_time (heap w ! j) (lastTimestamp (heap w' ! j))) `
                   set (chain (heap w) this)))"
    by blast
qed

theorem child_is_debited_after_parent_returns_witness:
  "\<exists>r w' rp wp.
     take_token 2 (three_levels 0) = Some (r, w') \<and>
     take_token 1 (entered 2 (three_levels 0)) = Some (rp, wp) \<and>
     capacity (heap (entered 2 (three_levels 0)) ! 2) = 1000 \<and>
     capacity (heap wp ! 2) = 1000 \<and> w' = debit 2 wp \<and> capacity (heap w' ! 2) = 999 \<and>
     precedes (Called 1) (Debited 2) (trace_of_take 2 (three_levels 0))"
proof -
  let ?w = "three_levels 0"
  have pre: "wf_world ?w" "2 < length (heap ?w)" "parent (options (heap ?w ! 2)) = Some 1"
    by (simp_all add: three_levels_facts) (simp add: three_levels_def)
  have rf: "refilled (heap ?w ! 2) (clock ?w (refresh_reading 2 ?w)) = 1000"
    by (simp add: refilled_def elapsedTimeInSeconds_def three_levels_def)
  from child_is_debited_after_parent_returns[of ?w 2 1] pre obtain r w' rp wp where
    "take_token 2 ?w = Some (r, w')" "take_token 1 (entered 2 ?w) = Some (rp, wp)"
    "capacity (heap (entered 2 ?w) ! 2) = refilled (heap ?w ! 2) (clock ?w (refresh_reading 2 ?w))"
    "heap wp ! 2 = heap (entered 2 ?w) ! 2" "w' = debit 2 wp"
    "capacity (heap w' ! 2) = refilled (heap ?w ! 2) (clock ?w (refresh_reading 2 ?w)) - 1"
    "precedes (Called 1) (Debited 2) (trace_of_take 2 ?w)"
    by blast
  then show ?thesis unfolding rf by (intro exI[of _ r] exI[of _ w'] exI[of _ rp] exI[of _ wp]) simp
qed

end
